theory Spec2Isabelle
  imports Complex_Main "HOL-Library.AList"
begin

section \<open>Python strings\<close>

text \<open>
  Python \<open>str\<close> values are modelled as \<open>string\<close>. The model covers ASCII text:
  \<open>lower\<close> maps the letters A to Z, every other character is left as it is, and the
  whitespace characters are those of \<open>str.isspace\<close> below code point 128.
\<close>

definition lower_char :: "char \<Rightarrow> char" where
  "lower_char c =
     (case map_of (zip ''ABCDEFGHIJKLMNOPQRSTUVWXYZ'' ''abcdefghijklmnopqrstuvwxyz'') c of
        Some d \<Rightarrow> d
      | None \<Rightarrow> c)"

definition lower :: "string \<Rightarrow> string" where
  "lower s = map lower_char s"

definition is_space :: "char \<Rightarrow> bool" where
  "is_space c = (c \<in> set [CHR '' '', CHR 0x09, CHR 0x0A, CHR 0x0B, CHR 0x0C, CHR 0x0D,
                           CHR 0x1C, CHR 0x1D, CHR 0x1E, CHR 0x1F])"

definition strip :: "string \<Rightarrow> string" where
  "strip s = rev (dropWhile is_space (rev (dropWhile is_space s)))"

text \<open>\<open>s.split(sep)\<close> for a one-character separator: empty pieces are kept.\<close>

fun split_on :: "char \<Rightarrow> string \<Rightarrow> string list" where
  "split_on sep [] = [[]]"
| "split_on sep (c # cs) =
     (if c = sep then [] # split_on sep cs
      else (case split_on sep cs of
              p # ps \<Rightarrow> (c # p) # ps
            | [] \<Rightarrow> [[c]]))"

text \<open>\<open>s.split()\<close>: the maximal runs of non-whitespace characters.\<close>

fun split_ws_from :: "string \<Rightarrow> string \<Rightarrow> string list" where
  "split_ws_from cur [] = (if cur = [] then [] else [cur])"
| "split_ws_from cur (c # cs) =
     (if is_space c then (if cur = [] then [] else [cur]) @ split_ws_from [] cs
      else split_ws_from (cur @ [c]) cs)"

definition split_ws :: "string \<Rightarrow> string list" where
  "split_ws s = split_ws_from [] s"

text \<open>\<open>sep.join(parts)\<close>.\<close>

fun join :: "string \<Rightarrow> string list \<Rightarrow> string" where
  "join sep [] = []"
| "join sep [p] = p"
| "join sep (p # q # ps) = p @ sep @ join sep (q # ps)"

definition startswith :: "string \<Rightarrow> string \<Rightarrow> bool" where
  "startswith s p = (take (length p) s = p)"

definition endswith :: "string \<Rightarrow> string \<Rightarrow> bool" where
  "endswith s p = (drop (length s - length p) s = p \<and> length p \<le> length s)"

text \<open>
  \<open>a or b\<close> on optional strings: \<open>None\<close> and the empty string are false.
\<close>

definition py_or :: "string option \<Rightarrow> string option \<Rightarrow> string option" where
  "py_or a b = (case a of Some s \<Rightarrow> (if s = [] then b else Some s) | None \<Rightarrow> b)"

definition truthy :: "string option \<Rightarrow> bool" where
  "truthy a = (case a of Some s \<Rightarrow> s \<noteq> [] | None \<Rightarrow> False)"

section \<open>Catalog data and slot schema (prompt\_generator.py)\<close>

text \<open>
  A catalog item is a JSON object. The fields the generator and the parser read:
  \<open>id\<close> (required by \<open>_load_catalogs\<close>), \<open>name\<close>, \<open>name_i18n\<close> (language to text, in
  file order), \<open>category\<close> and \<open>covers_legs\<close> (absent reads as false).
\<close>

record item =
  item_id :: string
  item_name :: "string option"
  name_i18n :: "(string \<times> string) list option"
  item_category :: "string option"
  covers_legs :: bool

text \<open>
  A loaded catalog file: its \<open>items\<close> array (empty when the key is absent) and its two
  index tables, each from a sub-key to a list of item ids.
\<close>

record catalog =
  items :: "item list"
  index_by_body_part :: "(string \<times> string list) list"
  index_by_category :: "(string \<times> string list) list"

text \<open>
  The state \<open>PromptGenerator.__init__\<close> builds: the catalogs that were found on disk,
  the palettes (id to colour list), the pool of individual colours and the colour
  localisation table (colour to language to text, in file order).
\<close>

record generator =
  catalogs :: "string \<rightharpoonup> catalog"
  palettes :: "string \<rightharpoonup> string list"
  individual_colors :: "string list"
  color_i18n :: "(string \<times> (string \<times> string) list) list"

record slot_def =
  sd_category :: string
  sd_catalog :: string
  index_key :: "string option"
  has_color :: bool

definition mk_slot :: "string \<Rightarrow> string \<Rightarrow> string option \<Rightarrow> bool \<Rightarrow> slot_def" where
  "mk_slot cat ctl k hc =
     \<lparr>sd_category = cat, sd_catalog = ctl, index_key = k, has_color = hc\<rparr>"

definition SLOT_DEFINITIONS :: "(string \<times> slot_def) list" where
  "SLOT_DEFINITIONS =
    [(''hair_style'', mk_slot ''appearance'' ''hair'' (Some ''style'') False),
     (''hair_length'', mk_slot ''appearance'' ''hair'' (Some ''length'') False),
     (''hair_color'', mk_slot ''appearance'' ''hair'' (Some ''color'') False),
     (''hair_texture'', mk_slot ''appearance'' ''hair'' (Some ''texture'') False),
     (''eye_color'', mk_slot ''appearance'' ''eyes'' (Some ''color'') False),
     (''eye_expression_quality'',
        mk_slot ''appearance'' ''eyes'' (Some ''expression_quality'') False),
     (''eye_shape'', mk_slot ''appearance'' ''eyes'' (Some ''eye_shape'') False),
     (''eye_pupil_state'', mk_slot ''appearance'' ''eyes'' (Some ''pupil_state'') False),
     (''eye_state'', mk_slot ''appearance'' ''eyes'' (Some ''eye_state'') False),
     (''eye_accessories'', mk_slot ''appearance'' ''eyes'' (Some ''eye_accessories'') False),
     (''body_type'', mk_slot ''body'' ''body'' (Some ''body_type'') False),
     (''height'', mk_slot ''body'' ''body'' (Some ''height'') False),
     (''skin'', mk_slot ''body'' ''body'' (Some ''skin'') False),
     (''age_appearance'', mk_slot ''body'' ''body'' (Some ''age_appearance'') False),
     (''special_features'', mk_slot ''body'' ''body'' (Some ''special_features'') False),
     (''expression'', mk_slot ''expression'' ''expressions'' None False),
     (''head'', mk_slot ''clothing'' ''clothing'' (Some ''head'') True),
     (''neck'', mk_slot ''clothing'' ''clothing'' (Some ''neck'') True),
     (''upper_body'', mk_slot ''clothing'' ''clothing'' (Some ''upper_body'') True),
     (''waist'', mk_slot ''clothing'' ''clothing'' (Some ''waist'') True),
     (''lower_body'', mk_slot ''clothing'' ''clothing'' (Some ''lower_body'') True),
     (''full_body'', mk_slot ''clothing'' ''clothing'' (Some ''full_body'') True),
     (''outerwear'', mk_slot ''clothing'' ''clothing'' (Some ''outerwear'') True),
     (''hands'', mk_slot ''clothing'' ''clothing'' (Some ''hands'') True),
     (''legs'', mk_slot ''clothing'' ''clothing'' (Some ''legs'') True),
     (''feet'', mk_slot ''clothing'' ''clothing'' (Some ''feet'') True),
     (''accessory'', mk_slot ''clothing'' ''clothing'' (Some ''accessory'') True),
     (''pose'', mk_slot ''pose'' ''poses'' None False),
     (''gesture'', mk_slot ''pose'' ''poses'' (Some ''gesture'') False),
     (''view_angle'', mk_slot ''pose'' ''view_angles'' None False),
     (''background'', mk_slot ''background'' ''backgrounds'' None False)]"

definition slot_names :: "string list" where
  "slot_names = map fst SLOT_DEFINITIONS"

text \<open>
  \<open>items_by_id[catalog]\<close> is a dict comprehension over the items: a later item with the
  same id replaces an earlier one. A catalog that was not loaded has no entry, and every
  reader uses \<open>.get(catalog_name, {})\<close>.
\<close>

definition items_by_id :: "generator \<Rightarrow> string \<Rightarrow> (string \<rightharpoonup> item)" where
  "items_by_id gen catalog_name =
     (case catalogs gen catalog_name of
        None \<Rightarrow> Map.empty
      | Some data \<Rightarrow> map_of (rev (map (\<lambda>it. (item_id it, it)) (items data))))"

definition item_id_by_name :: "generator \<Rightarrow> string \<Rightarrow> (string \<rightharpoonup> string)" where
  "item_id_by_name gen catalog_name =
     (case catalogs gen catalog_name of
        None \<Rightarrow> Map.empty
      | Some data \<Rightarrow>
          map_of (rev (concat (map (\<lambda>it.
            (case item_name it of
               Some label \<Rightarrow> (if label = [] then [] else [(lower (strip label), item_id it)])
             | None \<Rightarrow> [])) (items data)))))"

definition normalize_language :: "string \<Rightarrow> string" where
  "normalize_language language =
     (let code = lower (strip (if language = [] then ''en'' else language))
      in if startswith code ''zh'' then ''zh'' else ''en'')"

definition get_item_localized_name :: "item \<Rightarrow> string \<Rightarrow> string" where
  "get_item_localized_name it language =
     (let lang = normalize_language language;
          fallback = (case item_name it of Some n \<Rightarrow> n | None \<Rightarrow> item_id it)
      in case name_i18n it of
           None \<Rightarrow> fallback
         | Some names \<Rightarrow>
             (case py_or (map_of names lang) (map_of names ''en'') of
                None \<Rightarrow> fallback
              | Some localized \<Rightarrow> (if strip localized \<noteq> [] then localized else fallback)))"

definition localize_color_token :: "generator \<Rightarrow> string option \<Rightarrow> string \<Rightarrow> string option" where
  "localize_color_token gen color_token language =
     (case color_token of
        None \<Rightarrow> None
      | Some tok \<Rightarrow>
          (if tok = [] then None
           else let lang = normalize_language language
                in case map_of (color_i18n gen) tok of
                     None \<Rightarrow> Some tok
                   | Some names \<Rightarrow>
                       (case py_or (map_of names lang) (map_of names ''en'') of
                          None \<Rightarrow> Some tok
                        | Some localized \<Rightarrow>
                            (if strip localized \<noteq> [] then Some localized else Some tok))))"

definition get_slot_item_by_id :: "generator \<Rightarrow> string \<Rightarrow> string option \<Rightarrow> item option" where
  "get_slot_item_by_id gen slot_name iid =
     (case iid of
        None \<Rightarrow> None
      | Some i \<Rightarrow>
          (if i = [] then None
           else case map_of SLOT_DEFINITIONS slot_name of
                  None \<Rightarrow> None
                | Some d \<Rightarrow> items_by_id gen (sd_catalog d) i))"

definition resolve_slot_item ::
  "generator \<Rightarrow> string \<Rightarrow> string option \<Rightarrow> string option \<Rightarrow> item option" where
  "resolve_slot_item gen slot_name vid vname =
     (case map_of SLOT_DEFINITIONS slot_name of
        None \<Rightarrow> None
      | Some d \<Rightarrow>
          (let items_map = items_by_id gen (sd_catalog d);
               by_name =
                 (case vname of
                    None \<Rightarrow> None
                  | Some n \<Rightarrow>
                      (if n = [] then None
                       else case item_id_by_name gen (sd_catalog d) (lower (strip n)) of
                              None \<Rightarrow> None
                            | Some mapped_id \<Rightarrow>
                                (if mapped_id = [] then None else items_map mapped_id)))
           in case vid of
                None \<Rightarrow> by_name
              | Some i \<Rightarrow>
                  (if i = [] then by_name
                   else case items_map i of Some it \<Rightarrow> Some it | None \<Rightarrow> by_name)))"

definition resolve_slot_value_name ::
  "generator \<Rightarrow> string \<Rightarrow> string option \<Rightarrow> string option \<Rightarrow> string \<Rightarrow> string option" where
  "resolve_slot_value_name gen slot_name vid vname language =
     (case resolve_slot_item gen slot_name vid vname of
        None \<Rightarrow> None
      | Some it \<Rightarrow> Some (get_item_localized_name it language))"

definition ids_to_items :: "(string \<rightharpoonup> item) \<Rightarrow> string list \<Rightarrow> item list" where
  "ids_to_items items_map ids = concat (map (\<lambda>i. case items_map i of Some it \<Rightarrow> [it] | None \<Rightarrow> []) ids)"

definition index_get :: "(string \<times> string list) list \<Rightarrow> string \<Rightarrow> string list" where
  "index_get index k = (case map_of index k of Some ids \<Rightarrow> ids | None \<Rightarrow> [])"

definition get_slot_options :: "generator \<Rightarrow> string \<Rightarrow> item list" where
  "get_slot_options gen slot_name =
     (case map_of SLOT_DEFINITIONS slot_name of
        None \<Rightarrow> []
      | Some d \<Rightarrow>
          (case catalogs gen (sd_catalog d) of
             None \<Rightarrow> []
           | Some data \<Rightarrow>
               (if sd_catalog d = ''expressions'' then items data
                else case index_key d of
                       None \<Rightarrow>
                         (if sd_catalog d = ''poses'' \<and> slot_name = ''pose''
                          then filter (\<lambda>it. item_category it \<noteq> Some ''gesture'') (items data)
                          else items data)
                     | Some k \<Rightarrow>
                         (if sd_catalog d = ''clothing''
                          then ids_to_items (items_by_id gen (sd_catalog d))
                                 (index_get (index_by_body_part data) k)
                          else ids_to_items (items_by_id gen (sd_catalog d))
                                 (index_get (index_by_category data) k)))))"

definition lower_body_id_covers_legs :: "generator \<Rightarrow> string option \<Rightarrow> bool" where
  "lower_body_id_covers_legs gen iid =
     (case get_slot_item_by_id gen ''lower_body'' iid of
        None \<Rightarrow> False
      | Some it \<Rightarrow> covers_legs it)"

section \<open>Configuration\<close>

record slot_config =
  enabled :: bool
  locked :: bool
  slot_value :: "string option"
  value_id :: "string option"
  color :: "string option"
  color_enabled :: bool
  weight :: rat

text \<open>
  The field \<open>value\<close> of \<open>SlotConfig\<close> is \<open>slot_value\<close> here. A weight is a finite Python
  float, held as the rational number it denotes.
\<close>

definition SlotConfig :: slot_config where
  "SlotConfig = \<lparr>enabled = True, locked = False, slot_value = None, value_id = None,
                 color = None, color_enabled = False, weight = 1\<rparr>"

record generator_config =
  slots :: "string \<rightharpoonup> slot_config"
  color_mode :: string
  active_palette_id :: "string option"
  full_body_mode :: bool
  config_name :: string
  created_at :: "string option"

definition GeneratorConfig :: generator_config where
  "GeneratorConfig = \<lparr>slots = Map.empty, color_mode = ''none'', active_palette_id = None,
                      full_body_mode = True, config_name = ''Untitled'', created_at = None\<rparr>"

definition create_default_config :: generator_config where
  "create_default_config =
     fold (\<lambda>slot_name config. config\<lparr>slots := (slots config)(slot_name \<mapsto> SlotConfig)\<rparr>)
       slot_names GeneratorConfig"

section \<open>Randomization (prompt\_generator.py)\<close>

text \<open>
  The module \<open>random\<close> is global state. Its state has type \<open>'g\<close>; \<open>rb g n\<close> is the draw
  \<open>random.choice\<close> makes for a sequence of length \<open>n\<close>: an index and the next state.
  Python's draw is below \<open>n\<close>; the model reduces it modulo \<open>n\<close>, which changes nothing for
  such a draw and keeps the read in range for every \<open>rb\<close>.
\<close>

definition choice :: "('g \<Rightarrow> nat \<Rightarrow> nat \<times> 'g) \<Rightarrow> 'a list \<Rightarrow> 'g \<Rightarrow> 'a \<times> 'g" where
  "choice rb xs g = (case rb g (length xs) of (i, g') \<Rightarrow> (xs ! (i mod length xs), g'))"

definition sample_slot ::
  "('g \<Rightarrow> nat \<Rightarrow> nat \<times> 'g) \<Rightarrow> generator \<Rightarrow> string \<Rightarrow> 'g \<Rightarrow> item option \<times> 'g" where
  "sample_slot rb gen slot_name g =
     (let options = get_slot_options gen slot_name
      in if options = [] then (None, g)
         else case choice rb options g of (it, g') \<Rightarrow> (Some it, g'))"

definition sample_color_from_palette ::
  "('g \<Rightarrow> nat \<Rightarrow> nat \<times> 'g) \<Rightarrow> generator \<Rightarrow> string \<Rightarrow> 'g \<Rightarrow> string option \<times> 'g" where
  "sample_color_from_palette rb gen palette_id g =
     (case palettes gen palette_id of
        None \<Rightarrow> (None, g)
      | Some colors \<Rightarrow>
          (if colors = [] then (None, g)
           else case choice rb colors g of (c, g') \<Rightarrow> (Some c, g')))"

definition sample_random_color ::
  "('g \<Rightarrow> nat \<Rightarrow> nat \<times> 'g) \<Rightarrow> generator \<Rightarrow> 'g \<Rightarrow> string option \<times> 'g" where
  "sample_random_color rb gen g =
     (if individual_colors gen = []
      then (case choice rb [''white'', ''black'', ''red'', ''blue'', ''pink'', ''purple'',
                            ''green'', ''yellow''] g of (c, g') \<Rightarrow> (Some c, g'))
      else (case choice rb (individual_colors gen) g of (c, g') \<Rightarrow> (Some c, g')))"

datatype error = KeyError string | TypeError

text \<open>
  \<open>randomize_slot\<close> mutates the configuration in place; the model returns the new
  configuration and the new state of \<open>random\<close>. \<open>SLOT_DEFINITIONS[slot_name]\<close> raises
  \<open>KeyError\<close> for an unknown slot name; it is only evaluated when \<open>include_color\<close> holds.
\<close>

definition set_slot :: "generator_config \<Rightarrow> string \<Rightarrow> slot_config \<Rightarrow> generator_config" where
  "set_slot config slot_name s = config\<lparr>slots := (slots config)(slot_name \<mapsto> s)\<rparr>"

definition known_palette :: "generator \<Rightarrow> string option \<Rightarrow> string option" where
  "known_palette gen palette_id =
     (case palette_id of
        None \<Rightarrow> None
      | Some p \<Rightarrow> (if p \<noteq> [] \<and> palettes gen p \<noteq> None then Some p else None))"

definition randomize_slot ::
  "('g \<Rightarrow> nat \<Rightarrow> nat \<times> 'g) \<Rightarrow> generator \<Rightarrow> generator_config \<Rightarrow> string \<Rightarrow> bool \<Rightarrow>
   string option \<Rightarrow> 'g \<Rightarrow> error + generator_config \<times> 'g" where
  "randomize_slot rb gen config0 slot_name include_color palette_id g =
     (let config = (case slots config0 slot_name of
                      None \<Rightarrow> set_slot config0 slot_name SlotConfig
                    | Some s \<Rightarrow> config0);
          slot = (case slots config0 slot_name of None \<Rightarrow> SlotConfig | Some s \<Rightarrow> s)
      in if locked slot then Inr (config, g)
         else
           case sample_slot rb gen slot_name g of (sampled, g1) \<Rightarrow>
             (let slot1 =
                    (case sampled of
                       Some it \<Rightarrow>
                         slot\<lparr>slot_value := Some (case item_name it of Some n \<Rightarrow> n | None \<Rightarrow> []),
                              value_id := Some (item_id it)\<rparr>
                     | None \<Rightarrow> slot\<lparr>slot_value := None, value_id := None\<rparr>)
              in if include_color
                 then (case map_of SLOT_DEFINITIONS slot_name of
                         None \<Rightarrow> Inl (KeyError slot_name)
                       | Some d \<Rightarrow>
                           (if has_color d
                            then (case known_palette gen palette_id of
                                    Some p \<Rightarrow>
                                      (case sample_color_from_palette rb gen p g1 of
                                         (c, g2) \<Rightarrow>
                                           Inr (set_slot config slot_name
                                                  (slot1\<lparr>color := c, color_enabled := True\<rparr>), g2))
                                  | None \<Rightarrow>
                                      (if color_mode config = ''random''
                                       then (case sample_random_color rb gen g1 of
                                               (c, g2) \<Rightarrow>
                                                 Inr (set_slot config slot_name
                                                        (slot1\<lparr>color := c, color_enabled := True\<rparr>), g2))
                                       else Inr (set_slot config slot_name slot1, g1)))
                            else Inr (set_slot config slot_name slot1, g1)))
                 else Inr (set_slot config slot_name slot1, g1)))"

definition clear_value :: "slot_config \<Rightarrow> slot_config" where
  "clear_value s = s\<lparr>slot_value := None, value_id := None\<rparr>"

definition clear_unless_locked :: "string \<Rightarrow> generator_config \<Rightarrow> generator_config" where
  "clear_unless_locked slot_name config =
     (case slots config slot_name of
        None \<Rightarrow> config
      | Some s \<Rightarrow> (if locked s then config else set_slot config slot_name (clear_value s)))"

definition apply_full_body_logic :: "generator_config \<Rightarrow> generator_config" where
  "apply_full_body_logic config =
     (case slots config ''full_body'' of
        None \<Rightarrow> config
      | Some full_body_slot \<Rightarrow>
          (if enabled full_body_slot \<and> truthy (slot_value full_body_slot)
           then fold clear_unless_locked [''upper_body'', ''lower_body''] config
           else config))"

definition apply_lower_body_leg_logic :: "generator \<Rightarrow> generator_config \<Rightarrow> generator_config" where
  "apply_lower_body_leg_logic gen config =
     (case slots config ''lower_body'' of
        None \<Rightarrow> config
      | Some lower_slot \<Rightarrow>
          (case slots config ''legs'' of
             None \<Rightarrow> config
           | Some legs \<Rightarrow>
               (if \<not> enabled lower_slot \<or> \<not> truthy (value_id lower_slot) then config
                else if lower_body_id_covers_legs gen (value_id lower_slot)
                then set_slot config ''legs'' (clear_value legs)
                else config)))"

fun randomize_loop ::
  "('g \<Rightarrow> nat \<Rightarrow> nat \<times> 'g) \<Rightarrow> generator \<Rightarrow> bool \<Rightarrow> string option \<Rightarrow> string list \<Rightarrow>
   generator_config \<times> 'g \<Rightarrow> error + generator_config \<times> 'g" where
  "randomize_loop rb gen include_color palette_id [] st = Inr st"
| "randomize_loop rb gen include_color palette_id (slot_name # rest) (config, g) =
     (if (case slots config slot_name of Some s \<Rightarrow> locked s | None \<Rightarrow> False)
      then randomize_loop rb gen include_color palette_id rest (config, g)
      else case randomize_slot rb gen config slot_name include_color palette_id g of
             Inl e \<Rightarrow> Inl e
           | Inr st' \<Rightarrow> randomize_loop rb gen include_color palette_id rest st')"

definition randomize_all ::
  "('g \<Rightarrow> nat \<Rightarrow> nat \<times> 'g) \<Rightarrow> generator \<Rightarrow> generator_config \<Rightarrow> bool \<Rightarrow> string option \<Rightarrow>
   'g \<Rightarrow> error + generator_config \<times> 'g" where
  "randomize_all rb gen config include_color palette_id g =
     (case randomize_loop rb gen include_color palette_id slot_names (config, g) of
        Inl e \<Rightarrow> Inl e
      | Inr (config1, g1) \<Rightarrow>
          Inr (apply_lower_body_leg_logic gen
                 (if full_body_mode config1 then apply_full_body_logic config1 else config1), g1))"

section \<open>Prompt assembly (nodes.py)\<close>

text \<open>
  \<open>f"{w:.1f}"\<close> prints the decimal with one fractional digit that is nearest to the
  exact value of the float, a tie going to the even digit, and a minus sign for a negative
  value. Negative zero, infinities and NaN have no rational value and are outside the model.
\<close>

definition digit_char :: "nat \<Rightarrow> char" where
  "digit_char d = ''0123456789'' ! d"

fun str_nat :: "nat \<Rightarrow> string" where
  "str_nat n = (if n < 10 then [digit_char n] else str_nat (n div 10) @ [digit_char (n mod 10)])"

declare str_nat.simps [simp del]

definition round_half_even :: "rat \<Rightarrow> int" where
  "round_half_even x =
     (let f = \<lfloor>x\<rfloor>; d = x - of_int f
      in if d < 1 / 2 then f
         else if 1 / 2 < d then f + 1
         else if even f then f else f + 1)"

definition format_1f :: "rat \<Rightarrow> string" where
  "format_1f w =
     (let n = nat (round_half_even (\<bar>w\<bar> * 10))
      in (if w < 0 then ''-'' else []) @ str_nat (n div 10) @ ''.'' @ [digit_char (n mod 10)])"

definition slot_order :: "string list" where
  "slot_order =
     [''hair_color'', ''hair_length'', ''hair_style'', ''hair_texture'',
      ''eye_color'', ''eye_expression_quality'', ''eye_shape'', ''eye_pupil_state'',
      ''eye_state'', ''eye_accessories'',
      ''body_type'', ''height'', ''skin'', ''age_appearance'', ''special_features'',
      ''expression'',
      ''full_body'', ''head'', ''neck'', ''upper_body'', ''waist'', ''lower_body'',
      ''outerwear'', ''hands'', ''legs'', ''feet'', ''accessory'',
      ''view_angle'', ''pose'', ''gesture'',
      ''background'']"

definition lower_covers_legs :: "generator \<Rightarrow> generator_config \<Rightarrow> bool" where
  "lower_covers_legs gen config =
     (case slots config ''lower_body'' of
        None \<Rightarrow> False
      | Some lower_slot \<Rightarrow>
          (if enabled lower_slot \<and> truthy (value_id lower_slot)
           then lower_body_id_covers_legs gen (value_id lower_slot)
           else False))"

text \<open>The three \<open>continue\<close> tests of the loop: a slot that passes them is emitted.\<close>

definition full_body_suppresses :: "generator_config \<Rightarrow> string \<Rightarrow> bool" where
  "full_body_suppresses config slot_name =
     (full_body_mode config \<and> slot_name \<in> set [''upper_body'', ''lower_body''] \<and>
      (case slots config ''full_body'' of
         None \<Rightarrow> False
       | Some full_body_slot \<Rightarrow> enabled full_body_slot \<and> truthy (value_id full_body_slot)))"

definition emitted :: "generator \<Rightarrow> generator_config \<Rightarrow> string \<Rightarrow> bool" where
  "emitted gen config slot_name =
     (case slots config slot_name of
        None \<Rightarrow> False
      | Some slot \<Rightarrow>
          (if \<not> enabled slot \<or> \<not> truthy (value_id slot) then False
           else if full_body_suppresses config slot_name then False
           else if slot_name = ''legs'' \<and> lower_covers_legs gen config then False
           else True))"

definition localized_name :: "generator \<Rightarrow> string \<Rightarrow> slot_config \<Rightarrow> string \<Rightarrow> string" where
  "localized_name gen slot_name slot language =
     (let fallback = (case py_or (slot_value slot) (value_id slot) of Some s \<Rightarrow> s | None \<Rightarrow> [])
      in case resolve_slot_value_name gen slot_name (value_id slot) (slot_value slot) language of
           None \<Rightarrow> fallback
         | Some n \<Rightarrow> (if n = [] then fallback else n))"

definition segment_text :: "generator \<Rightarrow> string \<Rightarrow> slot_config \<Rightarrow> string \<Rightarrow> string" where
  "segment_text gen slot_name slot language =
     (if color_enabled slot \<and> truthy (color slot)
      then (case py_or (localize_color_token gen (color slot) language) (color slot) of
              Some color_text \<Rightarrow> color_text @ '' '' @ localized_name gen slot_name slot language
            | None \<Rightarrow> '' '' @ localized_name gen slot_name slot language)
      else localized_name gen slot_name slot language)"

definition apply_weight :: "rat \<Rightarrow> string \<Rightarrow> string" where
  "apply_weight w prompt_part =
     (if w \<noteq> 1 then ''('' @ prompt_part @ '':'' @ format_1f w @ '')'' else prompt_part)"

definition prompt_part :: "generator \<Rightarrow> generator_config \<Rightarrow> string \<Rightarrow> string \<Rightarrow> string option" where
  "prompt_part gen config language slot_name =
     (if emitted gen config slot_name
      then (case slots config slot_name of
              None \<Rightarrow> None
            | Some slot \<Rightarrow>
                Some (apply_weight (weight slot) (segment_text gen slot_name slot language)))
      else None)"

fun build_loop :: "(string \<Rightarrow> string option) \<Rightarrow> string list \<Rightarrow> string list \<Rightarrow> string list" where
  "build_loop f [] parts = parts"
| "build_loop f (slot_name # rest) parts =
     build_loop f rest (case f slot_name of None \<Rightarrow> parts | Some p \<Rightarrow> parts @ [p])"

definition build_parts :: "generator \<Rightarrow> generator_config \<Rightarrow> string \<Rightarrow> string list" where
  "build_parts gen config language =
     build_loop (prompt_part gen config language) slot_order [''1girl'']"

definition build_prompt_localized :: "generator \<Rightarrow> generator_config \<Rightarrow> string \<Rightarrow> string" where
  "build_prompt_localized gen config language = join '', '' (build_parts gen config language)"

subsection \<open>The node's generate operation\<close>

definition disable_slot :: "string \<Rightarrow> generator_config \<Rightarrow> generator_config" where
  "disable_slot slot_name config =
     (case slots config slot_name of
        None \<Rightarrow> config
      | Some s \<Rightarrow> set_slot config slot_name (s\<lparr>enabled := False\<rparr>))"

definition apply_lock :: "(string \<Rightarrow> string) \<Rightarrow> string \<Rightarrow> generator_config \<Rightarrow> generator_config" where
  "apply_lock lock_of slot_name config =
     (if strip (lock_of slot_name) \<noteq> []
      then (case slots config slot_name of
              None \<Rightarrow> config
            | Some s \<Rightarrow>
                set_slot config slot_name
                  (s\<lparr>slot_value := Some (strip (lock_of slot_name)),
                     value_id := Some (strip (lock_of slot_name))\<rparr>))
      else config)"

text \<open>The keys of the \<open>locks\<close> dict in \<open>generate\<close>, in the order of the literal.\<close>

definition lock_names :: "string list" where
  "lock_names =
     [''hair_style'', ''hair_length'', ''hair_color'', ''hair_texture'',
      ''eye_color'', ''eye_expression_quality'', ''eye_shape'', ''eye_pupil_state'',
      ''eye_state'', ''eye_accessories'',
      ''body_type'', ''height'', ''skin'', ''age_appearance'', ''special_features'',
      ''expression'',
      ''head'', ''neck'', ''upper_body'', ''waist'', ''lower_body'', ''full_body'',
      ''outerwear'', ''hands'', ''legs'', ''feet'', ''accessory'',
      ''pose'', ''gesture'', ''view_angle'',
      ''background'']"

text \<open>
  \<open>generate\<close> runs on the global state of \<open>random\<close>, whatever earlier calls left there:
  \<open>g0\<close>. \<open>random.seed(seed)\<close> replaces it by \<open>rseed seed\<close>. \<open>lock_of slot_name\<close> is the
  keyword argument \<open>lock_<slot_name>\<close>. The result is the prompt string and the state
  of \<open>random\<close> the call leaves behind.
\<close>

definition generate ::
  "(int \<Rightarrow> 'g) \<Rightarrow> ('g \<Rightarrow> nat \<Rightarrow> nat \<times> 'g) \<Rightarrow> generator \<Rightarrow> 'g \<Rightarrow> int \<Rightarrow> string \<Rightarrow> string \<Rightarrow> bool \<Rightarrow>
   bool \<Rightarrow> string \<Rightarrow> (string \<Rightarrow> string) \<Rightarrow> error + string \<times> 'g" where
  "generate rseed rb gen g0 seed language palette fbm upper_body_mode prefix lock_of =
     (let g = (\<lambda>previous. rseed seed) g0;
          config = create_default_config\<lparr>full_body_mode := fbm\<rparr>;
          palette_id = (if palette \<noteq> ''none'' then Some palette else None);
          include_color = (palette_id \<noteq> None)
      in case randomize_all rb gen config include_color palette_id g of
           Inl e \<Rightarrow> Inl e
         | Inr (config1, g1) \<Rightarrow>
             (let config2 =
                    (if upper_body_mode
                     then fold disable_slot
                            [''waist'', ''lower_body'', ''full_body'', ''legs'', ''feet''] config1
                     else config1);
                  config3 = fold (apply_lock lock_of) lock_names config2;
                  prompt = build_prompt_localized gen config3 language
              in if strip prefix \<noteq> [] then Inr (strip prefix @ '', '' @ prompt, g1)
                 else Inr (prompt, g1)))"

section \<open>Match index and reverse parser (parser.py)\<close>

subsection \<open>Colour trie\<close>

text \<open>
  A node of \<open>ColorTrie\<close> is a dict whose keys are characters; where a word ends, the key
  \<open>"$"\<close> holds the canonical colour, a string. Here the entry under \<open>"$"\<close> is the field
  \<open>terminal\<close> and the other entries are the association list \<open>children\<close>. The words that
  are inserted are taken not to contain the character \<open>$\<close> (the theorems about colour
  extraction assume it of the colour words of the generator). The text that
  \<open>find_prefix\<close> walks along may contain it, see below.
\<close>

datatype trie = Trie (terminal: "string option") (children: "(char \<times> trie) list")

fun trie_insert :: "string \<Rightarrow> string \<Rightarrow> trie \<Rightarrow> trie" where
  "trie_insert [] stored node = Trie (Some stored) (children node)"
| "trie_insert (c # w) stored node =
     Trie (terminal node)
       (AList.update c
          (trie_insert w stored
             (case map_of (children node) c of None \<Rightarrow> Trie None [] | Some n \<Rightarrow> n))
          (children node))"

definition ColorTrie_insert :: "string \<Rightarrow> string \<Rightarrow> trie \<Rightarrow> trie" where
  "ColorTrie_insert word canonical node =
     trie_insert (lower word) (if canonical = [] then word else canonical) node"

text \<open>
  The loop of \<open>find_prefix\<close>: \<open>i\<close> is the index of the character \<open>c\<close> of the lowered
  text, \<open>text\<close> the text as given. The loop stops at the first character that is not a
  key of the node and returns the last match it recorded.

  The character \<open>$\<close> of the text is a key of every node that ends a word. The walk then
  steps into the canonical colour, a string, on which \<open>"$" in node\<close> and
  \<open>char not in node\<close> test for a substring and \<open>node["$"]\<close> and \<open>node[char]\<close> raise
  \<open>TypeError\<close>. \<open>walk_string\<close> is the rest of the loop from there: \<open>i\<close> is the index
  of the \<open>$\<close> just read and \<open>rest\<close> the characters after it.
\<close>

definition walk_string ::
  "string \<Rightarrow> string \<Rightarrow> nat \<Rightarrow> string \<Rightarrow> (string \<times> nat) option \<Rightarrow> error + (string \<times> nat) option" where
  "walk_string text canonical i rest last_match =
     (if CHR ''$'' \<in> set canonical \<and> i + 1 < length text \<and> text ! (i + 1) = CHR '' ''
      then Inl TypeError
      else (case rest of
              [] \<Rightarrow> Inr last_match
            | c # cs \<Rightarrow> (if c \<in> set canonical then Inl TypeError else Inr last_match)))"

fun find_prefix_loop ::
  "string \<Rightarrow> trie \<Rightarrow> nat \<Rightarrow> string \<Rightarrow> (string \<times> nat) option \<Rightarrow> error + (string \<times> nat) option" where
  "find_prefix_loop text node i [] last_match = Inr last_match"
| "find_prefix_loop text node i (c # rest) last_match =
     (if c = CHR ''$''
      then (case terminal node of
              None \<Rightarrow> Inr last_match
            | Some canonical \<Rightarrow> walk_string text canonical i rest last_match)
      else (case map_of (children node) c of
              None \<Rightarrow> Inr last_match
            | Some node' \<Rightarrow>
                find_prefix_loop text node' (i + 1) rest
                  (case terminal node' of
                     None \<Rightarrow> last_match
                   | Some canonical \<Rightarrow>
                       (if i + 1 < length text \<and> text ! (i + 1) = CHR '' ''
                        then Some (canonical, i + 2)
                        else last_match))))"

definition find_prefix :: "trie \<Rightarrow> string \<Rightarrow> error + (string \<times> nat) option" where
  "find_prefix node text = find_prefix_loop text node 0 (lower text) None"

definition dollar_free :: "string \<Rightarrow> bool" where
  "dollar_free s = (CHR ''$'' \<notin> set s)"

text \<open>
  The canonical colour the trie holds for a word without \<open>$\<close>: the walk of
  \<open>find_prefix\<close> along the whole word, without the test for a following space. A word
  with a canonical colour is a colour surface form.
\<close>

fun trie_lookup :: "trie \<Rightarrow> string \<Rightarrow> string option" where
  "trie_lookup node [] = terminal node"
| "trie_lookup node (c # w) =
     (case map_of (children node) c of None \<Rightarrow> None | Some node' \<Rightarrow> trie_lookup node' w)"

subsection \<open>Indices\<close>

record indices =
  exact_index :: "(string \<times> (string \<times> string) list) list"
  normalized_index :: "(string \<times> (string \<times> string) list) list"
  word_index :: "(string \<times> (string \<times> string \<times> string) list) list"
  color_trie :: trie
  color_canonical :: "(string \<times> string) list"

definition empty_indices :: indices where
  "empty_indices = \<lparr>exact_index = [], normalized_index = [], word_index = [],
                    color_trie = Trie None [], color_canonical = []\<rparr>"

text \<open>\<open>re.sub(r'[\s\-_]+', '', text.lower())\<close>.\<close>

definition normalize_text :: "string \<Rightarrow> string" where
  "normalize_text s =
     filter (\<lambda>c. \<not> (is_space c \<or> c = CHR ''-'' \<or> c = CHR ''_'')) (lower s)"

text \<open>
  \<open>d.setdefault(k, []).append(v)\<close> on a dict kept in insertion order: a new key goes
  to the end, an old key keeps its place.
\<close>

definition setdefault_append :: "'k \<Rightarrow> 'v \<Rightarrow> ('k \<times> 'v list) list \<Rightarrow> ('k \<times> 'v list) list" where
  "setdefault_append k v d =
     AList.update k ((case map_of d k of None \<Rightarrow> [] | Some vs \<Rightarrow> vs) @ [v]) d"

definition index_word :: "string \<Rightarrow> string \<Rightarrow> string \<Rightarrow> string \<Rightarrow> indices \<Rightarrow> indices" where
  "index_word slot_name iid name_lower word idx =
     (if 2 < length word
      then idx\<lparr>word_index :=
                 setdefault_append word (slot_name, iid, name_lower) (word_index idx)\<rparr>
      else idx)"

definition index_name :: "string \<Rightarrow> string \<Rightarrow> string \<Rightarrow> indices \<Rightarrow> indices" where
  "index_name name slot_name iid idx =
     (let name_lower = strip (lower name)
      in if name_lower = [] then idx
         else
           let idx1 = idx\<lparr>exact_index :=
                            setdefault_append name_lower (slot_name, iid) (exact_index idx)\<rparr>;
               normalized = normalize_text name_lower;
               idx2 = (if normalized \<noteq> name_lower
                       then idx1\<lparr>normalized_index :=
                                   setdefault_append normalized (slot_name, iid)
                                     (normalized_index idx1)\<rparr>
                       else idx1);
               words = split_ws name_lower
           in if 1 < length words
              then fold (index_word slot_name iid name_lower) words idx2
              else idx2)"

definition index_localized :: "string \<Rightarrow> string \<Rightarrow> string \<Rightarrow> string \<times> string \<Rightarrow> indices \<Rightarrow> indices" where
  "index_localized name slot_name iid entry idx =
     (case entry of (lang, localized) \<Rightarrow>
        (if localized \<noteq> [] \<and> localized \<noteq> name
         then index_name localized slot_name iid idx
         else idx))"

definition index_item :: "string \<Rightarrow> item \<Rightarrow> indices \<Rightarrow> indices" where
  "index_item slot_name it idx =
     (if item_id it = [] then idx
      else
        let name = (case item_name it of Some n \<Rightarrow> n | None \<Rightarrow> []);
            idx1 = (if name \<noteq> [] then index_name name slot_name (item_id it) idx else idx)
        in fold (index_localized name slot_name (item_id it))
             (case name_i18n it of Some names \<Rightarrow> names | None \<Rightarrow> []) idx1)"

definition index_slot :: "generator \<Rightarrow> string \<Rightarrow> indices \<Rightarrow> indices" where
  "index_slot gen slot_name idx = fold (index_item slot_name) (get_slot_options gen slot_name) idx"

definition index_color :: "string \<Rightarrow> indices \<Rightarrow> indices" where
  "index_color c idx =
     idx\<lparr>color_trie := ColorTrie_insert c c (color_trie idx),
         color_canonical := AList.update (lower c) c (color_canonical idx)\<rparr>"

definition index_color_name :: "string \<Rightarrow> string \<times> string \<Rightarrow> indices \<Rightarrow> indices" where
  "index_color_name c entry idx =
     (case entry of (lang, localized) \<Rightarrow>
        (if localized \<noteq> []
         then idx\<lparr>color_trie := ColorTrie_insert localized c (color_trie idx),
                  color_canonical := AList.update (lower localized) c (color_canonical idx)\<rparr>
         else idx))"

definition index_color_i18n :: "string \<times> (string \<times> string) list \<Rightarrow> indices \<Rightarrow> indices" where
  "index_color_i18n entry idx = (case entry of (c, i18n) \<Rightarrow> fold (index_color_name c) i18n idx)"

definition build_indices :: "generator \<Rightarrow> indices" where
  "build_indices gen =
     fold index_color_i18n (color_i18n gen)
       (fold index_color (individual_colors gen)
          (fold (index_slot gen) slot_names empty_indices))"

text \<open>The words \<open>_build_indices\<close> inserts into the colour trie.\<close>

definition color_words :: "generator \<Rightarrow> string list" where
  "color_words gen =
     individual_colors gen @
     concat (map (\<lambda>entry. filter (\<lambda>localized. localized \<noteq> []) (map snd (snd entry)))
               (color_i18n gen))"

subsection \<open>What the parser takes from Python's runtime\<close>

text \<open>
  Four library behaviours enter the parser. They are parameters of the model:
  \<open>py_float s\<close> is \<open>float(s)\<close>, \<open>None\<close> standing for \<open>ValueError\<close>;
  \<open>seq_ratio a b\<close> is \<open>difflib.SequenceMatcher(None, a, b).ratio()\<close>;
  \<open>py_round3 q\<close> is \<open>round(x, 3)\<close> for the float \<open>x\<close> nearest to the quotient \<open>q\<close>;
  \<open>set_order xs\<close> is the order in which \<open>list(s)\<close> enumerates the set \<open>s\<close> whose
  elements are \<open>xs\<close>, which Python leaves to the hashes of the elements.
\<close>

record runtime =
  py_float :: "string \<Rightarrow> rat option"
  seq_ratio :: "string \<Rightarrow> string \<Rightarrow> rat"
  py_round3 :: "rat \<Rightarrow> rat"
  set_order :: "(string \<times> string) list \<Rightarrow> (string \<times> string) list"

subsection \<open>Tokenizer\<close>

fun rfind_loop :: "char \<Rightarrow> string \<Rightarrow> nat \<Rightarrow> int \<Rightarrow> int" where
  "rfind_loop c [] i found = found"
| "rfind_loop c (x # xs) i found = rfind_loop c xs (i + 1) (if x = c then int i else found)"

definition rfind :: "char \<Rightarrow> string \<Rightarrow> int" where
  "rfind c s = rfind_loop c s 0 (- 1)"

text \<open>
  One comma-separated part: \<open>None\<close> for a part that is empty after \<open>strip\<close>, else the
  token as the pair of its text and its weight.
\<close>

definition tokenize_part :: "runtime \<Rightarrow> string \<Rightarrow> (string \<times> rat) option" where
  "tokenize_part rt part0 =
     (let part = strip part0
      in if part = [] then None
         else if startswith part ''('' \<and> endswith part '')'' \<and> CHR '':'' \<in> set part
         then
           (let inner = butlast (tl part);
                last_colon = rfind CHR '':'' inner
            in if 0 < last_colon
               then (case py_float rt (drop (nat last_colon + 1) inner) of
                       Some w \<Rightarrow> Some (take (nat last_colon) inner, w)
                     | None \<Rightarrow> Some (part, 1))
               else Some (part, 1))
         else Some (part, 1))"

definition tokenize :: "runtime \<Rightarrow> string \<Rightarrow> (string \<times> rat) list" where
  "tokenize rt prompt =
     concat (map (\<lambda>part. case tokenize_part rt part of None \<Rightarrow> [] | Some t \<Rightarrow> [t])
               (split_on CHR '','' prompt))"

subsection \<open>Colour extraction and the matching strategies\<close>

definition extract_color :: "indices \<Rightarrow> string \<Rightarrow> error + string option \<times> string" where
  "extract_color idx text =
     (case find_prefix (color_trie idx) text of
        Inl e \<Rightarrow> Inl e
      | Inr (Some (c, prefix_len)) \<Rightarrow> Inr (Some c, strip (drop prefix_len text))
      | Inr None \<Rightarrow> Inr (None, text))"

definition match_exact :: "indices \<Rightarrow> string \<Rightarrow> (string \<times> string) list option" where
  "match_exact idx text = map_of (exact_index idx) (lower text)"

definition match_normalized :: "indices \<Rightarrow> string \<Rightarrow> (string \<times> string) list option" where
  "match_normalized idx text = map_of (normalized_index idx) (normalize_text text)"

text \<open>
  \<open>candidates\<close> is a Python set, or \<open>None\<close> before the first word longer than two
  characters. The set is held as a list without repetitions.
\<close>

definition slot_id_set :: "(string \<times> string \<times> string) list \<Rightarrow> (string \<times> string) list" where
  "slot_id_set word_matches = remdups (map (\<lambda>(slot_name, iid, full_name). (slot_name, iid)) word_matches)"

definition match_word ::
  "indices \<Rightarrow> string \<Rightarrow> (string \<times> string) list option \<Rightarrow> (string \<times> string) list option" where
  "match_word idx word candidates =
     (if length word \<le> 2 then candidates
      else
        let word_matches = (case map_of (word_index idx) word of None \<Rightarrow> [] | Some ms \<Rightarrow> ms)
        in case candidates of
             None \<Rightarrow> Some (slot_id_set word_matches)
           | Some cs \<Rightarrow> Some (filter (\<lambda>p. p \<in> set (slot_id_set word_matches)) cs))"

definition match_words :: "runtime \<Rightarrow> indices \<Rightarrow> string \<Rightarrow> (string \<times> string) list option" where
  "match_words rt idx text =
     (case fold (match_word idx) (split_ws (lower text)) None of
        None \<Rightarrow> None
      | Some cs \<Rightarrow> (if cs = [] then None else Some (set_order rt cs)))"

definition fuzzy_step ::
  "runtime \<Rightarrow> string \<Rightarrow> rat \<Rightarrow> string \<times> (string \<times> string) list \<Rightarrow>
   (string \<times> string) list option \<times> rat \<Rightarrow> (string \<times> string) list option \<times> rat" where
  "fuzzy_step rt text_lower threshold entry best =
     (case entry of (name, matches) \<Rightarrow>
        (case best of (best_matches, best_score) \<Rightarrow>
           (let score = seq_ratio rt text_lower name
            in if best_score < score \<and> threshold \<le> score then (Some matches, score)
               else (best_matches, best_score))))"

definition match_fuzzy ::
  "runtime \<Rightarrow> indices \<Rightarrow> string \<Rightarrow> rat \<Rightarrow> ((string \<times> string) list \<times> rat) option" where
  "match_fuzzy rt idx text threshold =
     (case fold (fuzzy_step rt (lower text) threshold) (exact_index idx) (None, 0) of
        (best_matches, best_score) \<Rightarrow>
          (case best_matches of
             None \<Rightarrow> None
           | Some ms \<Rightarrow> (if ms = [] then None else Some (ms, best_score))))"

subsection \<open>The parse loop\<close>

definition nonempty :: "'a list option \<Rightarrow> bool" where
  "nonempty matches = (case matches of None \<Rightarrow> False | Some ms \<Rightarrow> ms \<noteq> [])"

text \<open>
  The four numbered steps in the body of the loop of \<open>parse\<close>: the variables \<open>matches\<close>
  and \<open>confidence\<close> after step 4.
\<close>

definition cascade ::
  "runtime \<Rightarrow> indices \<Rightarrow> bool \<Rightarrow> string \<Rightarrow> (string \<times> string) list option \<times> rat" where
  "cascade rt idx use_fuzzy item_text =
     (let m1 = match_exact idx item_text;
          c1 = 1;
          (m2, c2) = (if \<not> nonempty m1 then (match_normalized idx item_text, 95 / 100)
                      else (m1, c1));
          (m3, c3) = (if \<not> nonempty m2 then (match_words rt idx item_text, 85 / 100)
                      else (m2, c2))
      in if \<not> nonempty m3 \<and> use_fuzzy \<and> 3 < length item_text
         then (case match_fuzzy rt idx item_text (85 / 100) of
                 Some (ms, score) \<Rightarrow> (Some ms, score)
               | None \<Rightarrow> (m3, c3))
         else (m3, c3))"

record slot_result =
  res_value_id :: string
  res_color :: "string option"
  res_weight :: rat
  res_enabled :: bool
  res_confidence :: rat

definition slot_has_color :: "string \<Rightarrow> bool" where
  "slot_has_color slot_name =
     (case map_of SLOT_DEFINITIONS slot_name of None \<Rightarrow> False | Some d \<Rightarrow> has_color d)"

definition make_result :: "string option \<Rightarrow> rat \<Rightarrow> rat \<Rightarrow> string \<Rightarrow> string \<Rightarrow> slot_result" where
  "make_result c w confidence slot_name iid =
     \<lparr>res_value_id = iid,
      res_color = (if slot_has_color slot_name then c else None),
      res_weight = w, res_enabled = True, res_confidence = confidence\<rparr>"

text \<open>
  The inner loop over the candidates: the results after the first candidate whose slot
  is free was stored, or \<open>None\<close> when the loop ends with \<open>assigned\<close> still false.
\<close>

fun assign ::
  "(string \<Rightarrow> string \<Rightarrow> slot_result) \<Rightarrow> (string \<rightharpoonup> slot_result) \<Rightarrow> (string \<times> string) list \<Rightarrow>
   (string \<rightharpoonup> slot_result) option" where
  "assign mk results [] = None"
| "assign mk results ((slot_name, iid) # rest) =
     (if results slot_name = None then Some (results(slot_name \<mapsto> mk slot_name iid))
      else assign mk results rest)"

definition skip_tokens :: "string list" where
  "skip_tokens = [''1girl'', ''1boy'', ''girl'', ''boy'', ''solo'']"

record parse_state =
  st_results :: "string \<rightharpoonup> slot_result"
  st_unmatched :: "string list"
  st_matched_count :: nat

text \<open>
  The body of the loop of \<open>parse\<close> for one token. The \<open>TypeError\<close> of \<open>find_prefix\<close>
  is not caught anywhere and ends the parse.
\<close>

definition parse_token ::
  "runtime \<Rightarrow> indices \<Rightarrow> bool \<Rightarrow> string \<times> rat \<Rightarrow> parse_state \<Rightarrow> error + parse_state" where
  "parse_token rt idx use_fuzzy token st =
     (case token of (text, w) \<Rightarrow>
        (if lower text \<in> set skip_tokens then Inr st
         else
           case extract_color idx text of
             Inl e \<Rightarrow> Inl e
           | Inr (c, item_text) \<Rightarrow>
               (case cascade rt idx use_fuzzy item_text of (matches, confidence) \<Rightarrow>
                  Inr (if nonempty matches
                       then (case assign (make_result c w confidence) (st_results st)
                                    (case matches of Some ms \<Rightarrow> ms | None \<Rightarrow> []) of
                               Some results' \<Rightarrow>
                                 st\<lparr>st_results := results',
                                    st_matched_count := st_matched_count st + 1\<rparr>
                             | None \<Rightarrow> st\<lparr>st_unmatched := st_unmatched st @ [text]\<rparr>)
                       else st\<lparr>st_unmatched := st_unmatched st @ [text]\<rparr>))))"

fun parse_loop ::
  "runtime \<Rightarrow> indices \<Rightarrow> bool \<Rightarrow> (string \<times> rat) list \<Rightarrow> parse_state \<Rightarrow> error + parse_state" where
  "parse_loop rt idx use_fuzzy [] st = Inr st"
| "parse_loop rt idx use_fuzzy (token # rest) st =
     (case parse_token rt idx use_fuzzy token st of
        Inl e \<Rightarrow> Inl e
      | Inr st' \<Rightarrow> parse_loop rt idx use_fuzzy rest st')"

record parse_result =
  res_slots :: "string \<rightharpoonup> slot_result"
  res_unmatched :: "string list"
  res_matched_count :: nat
  res_total_tokens :: nat
  res_overall_confidence :: rat

text \<open>
  \<open>round(0, 3)\<close> of the integer \<open>0\<close> is \<open>0\<close>; the quotient of the other branch is a
  float and goes through \<open>py_round3\<close>.
\<close>

definition parse_tokens ::
  "runtime \<Rightarrow> indices \<Rightarrow> bool \<Rightarrow> (string \<times> rat) list \<Rightarrow> error + parse_state" where
  "parse_tokens rt idx use_fuzzy tokens =
     parse_loop rt idx use_fuzzy tokens
       \<lparr>st_results = Map.empty, st_unmatched = [], st_matched_count = 0\<rparr>"

definition parse :: "runtime \<Rightarrow> indices \<Rightarrow> string \<Rightarrow> bool \<Rightarrow> error + parse_result" where
  "parse rt idx prompt use_fuzzy =
     (case parse_tokens rt idx use_fuzzy (tokenize rt prompt) of
        Inl e \<Rightarrow> Inl e
      | Inr st \<Rightarrow>
          (let total = st_matched_count st + length (st_unmatched st)
           in Inr \<lparr>res_slots = st_results st,
                   res_unmatched = st_unmatched st,
                   res_matched_count = st_matched_count st,
                   res_total_tokens = total,
                   res_overall_confidence =
                     (if 0 < total
                      then py_round3 rt (of_nat (st_matched_count st) / of_nat total)
                      else 0)\<rparr>))"

text \<open>The value id a parse reports for a slot, or the error the parse ended with.\<close>

definition parsed_value_id :: "error + parse_result \<Rightarrow> string \<Rightarrow> error + string option" where
  "parsed_value_id r slot_name =
     (case r of Inl e \<Rightarrow> Inl e | Inr res \<Rightarrow> Inr (map_option res_value_id (res_slots res slot_name)))"

text \<open>
  For comparison with the tokenizer, in the specification's words: collapsing the internal
  whitespace of a text leaves its words separated by single spaces.
\<close>

definition spec_collapse_whitespace :: "string \<Rightarrow> string" where
  "spec_collapse_whitespace s = join '' '' (split_ws s)"

text \<open>A token the loop of \<open>parse\<close> does not skip.\<close>

definition considered :: "string \<times> rat \<Rightarrow> bool" where
  "considered token = (lower (fst token) \<notin> set skip_tokens)"

subsection \<open>The item indices as lists of entries\<close>

text \<open>
  What \<open>_build_indices\<close> adds to the exact and to the normalized index, written as the
  list of its \<open>append\<close> calls in the order in which they happen: the key, then the slot
  and item id appended under it. \<open>indexed_names\<close> are the names of an item that reach
  \<open>_index_name\<close>; \<open>exact_keys\<close> and \<open>normalized_keys\<close> give the key (if any) under
  which \<open>_index_name\<close> files a name in each index.
\<close>

definition grouped :: "('k \<times> 'v list) list \<Rightarrow> 'k \<Rightarrow> 'v list" where
  "grouped d k = (case map_of d k of None \<Rightarrow> [] | Some vs \<Rightarrow> vs)"

definition exact_keys :: "string \<Rightarrow> string list" where
  "exact_keys name = (let k = strip (lower name) in if k = [] then [] else [k])"

definition normalized_keys :: "string \<Rightarrow> string list" where
  "normalized_keys name =
     (let k = strip (lower name)
      in if k = [] then []
         else if normalize_text k \<noteq> k then [normalize_text k] else [])"

definition indexed_names :: "item \<Rightarrow> string list" where
  "indexed_names it =
     (let name = (case item_name it of Some n \<Rightarrow> n | None \<Rightarrow> [])
      in (if name \<noteq> [] then [name] else []) @
         filter (\<lambda>localized. localized \<noteq> [] \<and> localized \<noteq> name)
           (map snd (case name_i18n it of Some names \<Rightarrow> names | None \<Rightarrow> [])))"

definition name_entries ::
  "(string \<Rightarrow> string list) \<Rightarrow> string \<Rightarrow> string \<Rightarrow> string \<Rightarrow> (string \<times> string \<times> string) list" where
  "name_entries keys slot_name iid name = map (\<lambda>k. (k, slot_name, iid)) (keys name)"

definition item_entries ::
  "(string \<Rightarrow> string list) \<Rightarrow> string \<Rightarrow> item \<Rightarrow> (string \<times> string \<times> string) list" where
  "item_entries keys slot_name it =
     (if item_id it = [] then []
      else concat (map (name_entries keys slot_name (item_id it)) (indexed_names it)))"

definition slot_entries ::
  "(string \<Rightarrow> string list) \<Rightarrow> generator \<Rightarrow> string \<Rightarrow> (string \<times> string \<times> string) list" where
  "slot_entries keys gen slot_name =
     concat (map (item_entries keys slot_name) (get_slot_options gen slot_name))"

definition index_entries ::
  "(string \<Rightarrow> string list) \<Rightarrow> generator \<Rightarrow> (string \<times> string \<times> string) list" where
  "index_entries keys gen = concat (map (slot_entries keys gen) slot_names)"

definition entries_at :: "(string \<times> string \<times> string) list \<Rightarrow> string \<Rightarrow> (string \<times> string) list" where
  "entries_at es k = map snd (filter (\<lambda>e. fst e = k) es)"

text \<open>The place of a slot in the declaration order of \<open>SLOT_DEFINITIONS\<close>.\<close>

definition slot_pos :: "string \<Rightarrow> nat" where
  "slot_pos slot_name = length (takeWhile (\<lambda>n. n \<noteq> slot_name) slot_names)"

definition in_schema_order :: "(string \<times> string) list \<Rightarrow> bool" where
  "in_schema_order ms = sorted_wrt (\<lambda>a b. slot_pos (fst a) \<le> slot_pos (fst b)) ms"

text \<open>
  An operation \<open>f\<close> on the indices extends the index \<open>sel\<close> by the entries \<open>es\<close>: each
  key gets the entries filed under it appended, in order, and keys stay unique.
\<close>

definition extends ::
  "(indices \<Rightarrow> (string \<times> (string \<times> string) list) list) \<Rightarrow> (indices \<Rightarrow> indices) \<Rightarrow>
   (string \<times> string \<times> string) list \<Rightarrow> bool" where
  "extends sel f es =
     (\<forall>idx k.
        map_of (sel (f idx)) k =
          (if entries_at es k = [] then map_of (sel idx) k
           else Some (grouped (sel idx) k @ entries_at es k)) \<and>
        (distinct (map fst (sel idx)) \<longrightarrow> distinct (map fst (sel (f idx)))))"

subsection \<open>Round trip: the conditions on catalogs and configuration\<close>

definition emitted_slots :: "generator \<Rightarrow> generator_config \<Rightarrow> string list" where
  "emitted_slots gen config = filter (emitted gen config) slot_order"

text \<open>The value id a configuration holds for a slot, null when the slot is absent.\<close>

definition original_value_id :: "generator_config \<Rightarrow> string \<Rightarrow> string option" where
  "original_value_id config slot_name =
     (case slots config slot_name of None \<Rightarrow> None | Some slot \<Rightarrow> value_id slot)"

text \<open>
  No duplicate display names: two names of slot options that agree up to letter case and
  surrounding whitespace belong to the same slot and the same item id. The names are the
  English and the localized names of the options of every slot, as listed by
  \<open>index_entries exact_keys\<close>.
\<close>

definition unique_display_names :: "generator \<Rightarrow> bool" where
  "unique_display_names gen =
     list_all (\<lambda>e. list_all (\<lambda>f. if fst e = fst f then snd e = snd f else True)
                      (index_entries exact_keys gen))
       (index_entries exact_keys gen)"

text \<open>The colour text the assembler puts in front of the name, empty when it puts none.\<close>

definition color_text :: "generator \<Rightarrow> slot_config \<Rightarrow> string \<Rightarrow> string" where
  "color_text gen slot language =
     (if color_enabled slot \<and> truthy (color slot)
      then (case py_or (localize_color_token gen (color slot) language) (color slot) of
              Some t \<Rightarrow> t
            | None \<Rightarrow> [])
      else [])"

text \<open>
  What the round trip needs of an emitted slot, in terms of the catalogs and the
  configuration alone. The value id is the id of one of the slot's options, and that item
  has an English name. The segment (the display name, with the colour text and a space in
  front when a colour is enabled) holds no comma and no \<open>$\<close>, has no whitespace at either
  end and no opening parenthesis in front, and is not a skip token. The colour text, if
  any, is a colour surface form. No colour surface form that is followed by a space is a
  prefix of the segment, other than the colour text itself. The weight is 1.0 or prints
  as a text that \<open>float\<close> accepts.
\<close>

definition round_trip_ready ::
  "runtime \<Rightarrow> generator \<Rightarrow> generator_config \<Rightarrow> string \<Rightarrow> string \<Rightarrow> bool" where
  "round_trip_ready rt gen config language slot_name =
     (case slots config slot_name of
        None \<Rightarrow> False
      | Some slot \<Rightarrow>
          (case get_slot_item_by_id gen slot_name (value_id slot) of
             None \<Rightarrow> False
           | Some it \<Rightarrow>
               (let ct = color_text gen slot language;
                    seg = segment_text gen slot_name slot language
                in it \<in> set (get_slot_options gen slot_name) \<and>
                   truthy (item_name it) \<and>
                   CHR '','' \<notin> set seg \<and> dollar_free seg \<and> strip seg = seg \<and>
                   \<not> startswith seg ''('' \<and>
                   lower seg \<notin> set skip_tokens \<and>
                   (ct = [] \<or> lower ct \<in> lower ` set (color_words gen)) \<and>
                   list_all (\<lambda>k. \<not> (seg ! k = CHR '' '' \<and>
                                     take k (lower seg) \<in> lower ` set (color_words gen)))
                     [Suc (length ct) ..< length seg] \<and>
                   (weight slot = 1 \<or> py_float rt (format_1f (weight slot)) \<noteq> None))))"

section \<open>Example inputs\<close>

text \<open>
  A random source for the examples: the state is a counter, and the draw is the counter
  (reduced modulo the length by \<open>choice\<close>).
\<close>

definition counter_rb :: "nat \<Rightarrow> nat \<Rightarrow> nat \<times> nat" where
  "counter_rb g n = (g, Suc g)"

definition counter_seed :: "int \<Rightarrow> nat" where
  "counter_seed s = nat \<bar>s\<bar>"

text \<open>
  A runtime for the examples: decimal literals \<open>digits\<close> and \<open>digits.digits\<close> for
  \<open>float\<close>, the share of the common prefix for the similarity ratio, rounding of the
  exact quotient to the nearest thousandth (ties to even), and the stored order for the
  iteration of a set.
\<close>

definition digit_val :: "char \<Rightarrow> nat option" where
  "digit_val c = map_of (zip ''0123456789'' [0 ..< 10]) c"

fun digits_val :: "string \<Rightarrow> nat \<Rightarrow> nat option" where
  "digits_val [] acc = Some acc"
| "digits_val (c # cs) acc =
     (case digit_val c of None \<Rightarrow> None | Some d \<Rightarrow> digits_val cs (acc * 10 + d))"

definition decimal_float :: "string \<Rightarrow> rat option" where
  "decimal_float s =
     (case split_on CHR ''.'' s of
        [a] \<Rightarrow> (if a = [] then None else map_option of_nat (digits_val a 0))
      | [a, b] \<Rightarrow>
          (if a = [] \<or> b = [] then None
           else case digits_val a 0 of
                  None \<Rightarrow> None
                | Some x \<Rightarrow>
                    (case digits_val b 0 of
                       None \<Rightarrow> None
                     | Some y \<Rightarrow> Some (of_nat x + of_nat y / 10 ^ length b)))
      | _ \<Rightarrow> None)"

fun common_prefix :: "string \<Rightarrow> string \<Rightarrow> nat" where
  "common_prefix (x # xs) (y # ys) = (if x = y then Suc (common_prefix xs ys) else 0)"
| "common_prefix xs ys = 0"

definition prefix_ratio :: "string \<Rightarrow> string \<Rightarrow> rat" where
  "prefix_ratio a b =
     (if a = [] \<and> b = [] then 1
      else of_nat (2 * common_prefix a b) / of_nat (length a + length b))"

definition round3_half_even :: "rat \<Rightarrow> rat" where
  "round3_half_even q = of_int (round_half_even (q * 1000)) / 1000"

definition example_runtime :: runtime where
  "example_runtime = \<lparr>py_float = decimal_float, seq_ratio = prefix_ratio,
                       py_round3 = round3_half_even, set_order = (\<lambda>xs. xs)\<rparr>"

definition reversed_runtime :: runtime where
  "reversed_runtime = example_runtime\<lparr>set_order := rev\<rparr>"

definition mk_item :: "string \<Rightarrow> string \<Rightarrow> item" where
  "mk_item i n = \<lparr>item_id = i, item_name = Some n, name_i18n = None,
                  item_category = None, covers_legs = False\<rparr>"

definition no_catalog :: catalog where
  "no_catalog = \<lparr>items = [], index_by_body_part = [], index_by_category = []\<rparr>"

text \<open>The catalog of the parse scenario of the specification.\<close>

definition gen_scenario :: generator where
  "gen_scenario =
     \<lparr>catalogs =
        [''clothing'' \<mapsto> no_catalog\<lparr>items := [mk_item ''dress_casual'' ''dress''],
                                     index_by_body_part := [(''full_body'', [''dress_casual''])]\<rparr>,
         ''eyes'' \<mapsto> no_catalog\<lparr>items := [mk_item ''eyes_blue'' ''blue eyes''],
                                 index_by_category := [(''color'', [''eyes_blue''])]\<rparr>],
      palettes = Map.empty, individual_colors = [''red''], color_i18n = []\<rparr>"

text \<open>A clothing catalog with one full-body, one upper-body and one lower-body item.\<close>

definition gen_outfits :: generator where
  "gen_outfits =
     \<lparr>catalogs =
        [''clothing'' \<mapsto>
           no_catalog\<lparr>items := [mk_item ''dress_casual'' ''dress'', mk_item ''shirt_01'' ''shirt'',
                                 mk_item ''skirt_01'' ''skirt''],
                      index_by_body_part :=
                        [(''full_body'', [''dress_casual'']), (''upper_body'', [''shirt_01'']),
                         (''lower_body'', [''skirt_01''])]\<rparr>],
      palettes = [''warm'' \<mapsto> [''red'', ''orange'']], individual_colors = [''red''],
      color_i18n = []\<rparr>"

definition config_full_body_disabled :: generator_config where
  "config_full_body_disabled =
     set_slot create_default_config ''full_body'' (SlotConfig\<lparr>enabled := False\<rparr>)"

text \<open>A lower-body item that covers the legs, and a configuration whose legs slot is locked.\<close>

definition gen_skirt :: generator where
  "gen_skirt =
     \<lparr>catalogs =
        [''clothing'' \<mapsto>
           no_catalog\<lparr>items := [(mk_item ''long_skirt'' ''long skirt'')\<lparr>covers_legs := True\<rparr>],
                      index_by_body_part := [(''lower_body'', [''long_skirt''])]\<rparr>],
      palettes = Map.empty, individual_colors = [], color_i18n = []\<rparr>"

definition config_locked_legs :: generator_config where
  "config_locked_legs =
     set_slot create_default_config ''legs''
       (SlotConfig\<lparr>locked := True, slot_value := Some ''thighhighs'',
                   value_id := Some ''thighhighs''\<rparr>)"

text \<open>The state of one slot in the result of a randomization.\<close>

definition slot_after :: "error + generator_config \<times> 'g \<Rightarrow> string \<Rightarrow> slot_config option" where
  "slot_after r slot_name = (case r of Inl e \<Rightarrow> None | Inr (c, g) \<Rightarrow> slots c slot_name)"

text \<open>
  The float \<open>1.3\<close>: the double nearest to 13/10. A configuration with a weighted,
  coloured full-body slot and an eye colour of weight 1.
\<close>

definition float_1_3 :: rat where
  "float_1_3 = 5854679515581645 / 4503599627370496"

definition config_weighted :: generator_config where
  "config_weighted =
     set_slot
       (set_slot create_default_config ''full_body''
          (SlotConfig\<lparr>slot_value := Some ''dress'', value_id := Some ''dress_casual'',
                      color := Some ''red'', color_enabled := True, weight := float_1_3\<rparr>))
       ''eye_color''
       (SlotConfig\<lparr>slot_value := Some ''blue eyes'', value_id := Some ''eyes_blue''\<rparr>)"

text \<open>Two colours, one a prefix of the other.\<close>

definition gen_dark :: generator where
  "gen_dark = \<lparr>catalogs = Map.empty, palettes = Map.empty,
               individual_colors = [''dark'', ''dark red''], color_i18n = []\<rparr>"

text \<open>Two hair items in different slots that share the words \<open>long\<close> and \<open>hair\<close>.\<close>

definition gen_hair :: generator where
  "gen_hair =
     \<lparr>catalogs =
        [''hair'' \<mapsto>
           no_catalog\<lparr>items := [mk_item ''hs_wavy'' ''long wavy hair'',
                                 mk_item ''hl_very'' ''very long hair''],
                      index_by_category := [(''style'', [''hs_wavy'']), (''length'', [''hl_very''])]\<rparr>],
      palettes = Map.empty, individual_colors = [], color_i18n = []\<rparr>"

definition empty_state :: parse_state where
  "empty_state = \<lparr>st_results = Map.empty, st_unmatched = [], st_matched_count = 0\<rparr>"

text \<open>
  A colour that is also the first word of an item name: the items \<open>dress\<close> and
  \<open>white dress\<close> of the full-body slot, and the colour \<open>white\<close>.
\<close>

definition gen_white :: generator where
  "gen_white =
     \<lparr>catalogs =
        [''clothing'' \<mapsto>
           no_catalog\<lparr>items := [mk_item ''dress'' ''dress'', mk_item ''white_dress'' ''white dress''],
                      index_by_body_part := [(''full_body'', [''dress'', ''white_dress''])]\<rparr>],
      palettes = Map.empty, individual_colors = [''white''], color_i18n = []\<rparr>"

definition config_white_dress :: generator_config where
  "config_white_dress =
     set_slot create_default_config ''full_body''
       (SlotConfig\<lparr>slot_value := Some ''white dress'', value_id := Some ''white_dress''\<rparr>)"


text \<open>
  A slot as a lock of the node leaves it: the lock text is written to both \<open>value\<close> and
  \<open>value_id\<close>, and it is the name of the item, not its id.
\<close>

definition config_lock_text :: generator_config where
  "config_lock_text =
     set_slot create_default_config ''full_body''
       (SlotConfig\<lparr>slot_value := Some ''dress'', value_id := Some ''dress''\<rparr>)"

text \<open>A pose whose display name is one of the parser's skip tokens.\<close>

definition gen_solo :: generator where
  "gen_solo =
     \<lparr>catalogs = [''poses'' \<mapsto> no_catalog\<lparr>items := [mk_item ''pose_solo'' ''solo'']\<rparr>],
      palettes = Map.empty, individual_colors = [], color_i18n = []\<rparr>"

definition config_solo :: generator_config where
  "config_solo =
     set_slot create_default_config ''pose''
       (SlotConfig\<lparr>slot_value := Some ''solo'', value_id := Some ''pose_solo''\<rparr>)"

text \<open>A display name with a comma in it.\<close>

definition gen_comma :: generator where
  "gen_comma =
     \<lparr>catalogs =
        [''clothing'' \<mapsto>
           no_catalog\<lparr>items := [mk_item ''knot_bow'' ''knot,bow''],
                      index_by_body_part := [(''neck'', [''knot_bow''])]\<rparr>],
      palettes = Map.empty, individual_colors = [], color_i18n = []\<rparr>"

definition config_comma :: generator_config where
  "config_comma =
     set_slot create_default_config ''neck''
       (SlotConfig\<lparr>slot_value := Some ''knot,bow'', value_id := Some ''knot_bow''\<rparr>)"

text \<open>A colour that is not among the colours of the generator.\<close>

definition config_crimson :: generator_config where
  "config_crimson =
     set_slot create_default_config ''full_body''
       (SlotConfig\<lparr>slot_value := Some ''dress'', value_id := Some ''dress_casual'',
                   color := Some ''crimson'', color_enabled := True\<rparr>)"

text \<open>Two options of one slot with the same display name.\<close>

definition gen_twins :: generator where
  "gen_twins =
     \<lparr>catalogs =
        [''clothing'' \<mapsto>
           no_catalog\<lparr>items := [mk_item ''dress_a'' ''dress'', mk_item ''dress_b'' ''dress''],
                      index_by_body_part := [(''full_body'', [''dress_a'', ''dress_b''])]\<rparr>],
      palettes = Map.empty, individual_colors = [], color_i18n = []\<rparr>"

definition config_twins :: generator_config where
  "config_twins =
     set_slot create_default_config ''full_body''
       (SlotConfig\<lparr>slot_value := Some ''dress'', value_id := Some ''dress_b''\<rparr>)"
section \<open>Randomization: locks and the full-body override\<close>

lemma randomize_slot_other:
  "randomize_slot rb gen c n ic pid g = Inr (c', g') \<Longrightarrow> m \<noteq> n \<Longrightarrow> slots c' m = slots c m"
  by (auto simp: randomize_slot_def Let_def set_slot_def
           split: option.splits prod.splits if_splits)

lemma randomize_slot_locked:
  "slots c n = Some s \<Longrightarrow> locked s \<Longrightarrow> randomize_slot rb gen c n ic pid g = Inr (c, g)"
  by (simp add: randomize_slot_def)

lemma randomize_slot_present:
  "randomize_slot rb gen c n ic pid g = Inr (c', g') \<Longrightarrow> slots c' n \<noteq> None"
  by (auto simp: randomize_slot_def Let_def set_slot_def
           split: option.splits prod.splits if_splits)

lemma randomize_slot_mode:
  "randomize_slot rb gen c n ic pid g = Inr (c', g') \<Longrightarrow> full_body_mode c' = full_body_mode c"
  by (auto simp: randomize_slot_def Let_def set_slot_def
           split: option.splits prod.splits if_splits)

lemma randomize_slot_total:
  "map_of SLOT_DEFINITIONS n \<noteq> None \<Longrightarrow> \<exists>st. randomize_slot rb gen c n ic pid g = Inr st"
  by (auto simp: randomize_slot_def Let_def set_slot_def
           split: option.splits prod.splits if_splits)

lemma randomize_slot_keeps_locked:
  assumes "randomize_slot rb gen c n ic pid g = Inr (c', g')" "slots c m = Some s" "locked s"
  shows "slots c' m = Some s"
proof (cases "m = n")
  case True
  with assms show ?thesis by (simp add: randomize_slot_locked)
next
  case False
  with assms show ?thesis by (simp add: randomize_slot_other)
qed

lemma randomize_slot_keeps_present:
  assumes "randomize_slot rb gen c n ic pid g = Inr (c', g')" "slots c m \<noteq> None"
  shows "slots c' m \<noteq> None"
  using assms randomize_slot_other[OF assms(1), of m] randomize_slot_present[OF assms(1)]
  by (cases "m = n") auto

lemma slot_names_known: "n \<in> set slot_names \<Longrightarrow> map_of SLOT_DEFINITIONS n \<noteq> None"
  by (simp add: slot_names_def map_of_eq_None_iff)

lemma randomize_loop_total:
  "set ns \<subseteq> set slot_names \<Longrightarrow> \<exists>st. randomize_loop rb gen ic pid ns (c, g) = Inr st"
proof (induction ns arbitrary: c g)
  case Nil
  then show ?case by simp
next
  case (Cons n ns)
  then have known: "map_of SLOT_DEFINITIONS n \<noteq> None" and rest: "set ns \<subseteq> set slot_names"
    by (simp_all add: slot_names_known)
  obtain c1 g1 where "randomize_slot rb gen c n ic pid g = Inr (c1, g1)"
    using randomize_slot_total[OF known, of rb gen c ic pid g] by auto
  then show ?case using Cons.IH[OF rest] by simp
qed

text \<open>
  One step of the loop of \<open>randomize_all\<close>: either the slot is skipped, or
  \<open>randomize_slot\<close> ran and the loop goes on from its result.
\<close>

lemma randomize_loop_step:
  assumes "randomize_loop rb gen ic pid (n # ns) (c, g) = Inr (c', g')"
  shows "\<exists>c1 g1. randomize_loop rb gen ic pid ns (c1, g1) = Inr (c', g') \<and>
           ((c1, g1) = (c, g) \<and> slots c n \<noteq> None \<or>
            randomize_slot rb gen c n ic pid g = Inr (c1, g1))"
  using assms by (auto split: sum.splits option.splits if_splits)

lemma randomize_loop_keeps_locked:
  "randomize_loop rb gen ic pid ns (c, g) = Inr (c', g') \<Longrightarrow> slots c m = Some s \<Longrightarrow> locked s
   \<Longrightarrow> slots c' m = Some s"
proof (induction ns arbitrary: c g)
  case Nil
  then show ?case by simp
next
  case (Cons n ns)
  from randomize_loop_step[OF Cons.prems(1)] obtain c1 g1 where
    rest: "randomize_loop rb gen ic pid ns (c1, g1) = Inr (c', g')" and
    step: "(c1, g1) = (c, g) \<or> randomize_slot rb gen c n ic pid g = Inr (c1, g1)"
    by blast
  from step Cons.prems(2,3) have "slots c1 m = Some s"
    by (auto dest: randomize_slot_keeps_locked)
  from Cons.IH[OF rest this Cons.prems(3)] show ?case .
qed

lemma randomize_loop_mode:
  "randomize_loop rb gen ic pid ns (c, g) = Inr (c', g') \<Longrightarrow> full_body_mode c' = full_body_mode c"
proof (induction ns arbitrary: c g)
  case Nil
  then show ?case by simp
next
  case (Cons n ns)
  from randomize_loop_step[OF Cons.prems(1)] obtain c1 g1 where
    rest: "randomize_loop rb gen ic pid ns (c1, g1) = Inr (c', g')" and
    step: "(c1, g1) = (c, g) \<or> randomize_slot rb gen c n ic pid g = Inr (c1, g1)"
    by blast
  from step have "full_body_mode c1 = full_body_mode c"
    by (auto dest: randomize_slot_mode)
  with Cons.IH[OF rest] show ?case by simp
qed

lemma randomize_loop_keeps_present:
  "randomize_loop rb gen ic pid ns (c, g) = Inr (c', g') \<Longrightarrow> slots c m \<noteq> None
   \<Longrightarrow> slots c' m \<noteq> None"
proof (induction ns arbitrary: c g)
  case Nil
  then show ?case by simp
next
  case (Cons n ns)
  from randomize_loop_step[OF Cons.prems(1)] obtain c1 g1 where
    rest: "randomize_loop rb gen ic pid ns (c1, g1) = Inr (c', g')" and
    step: "(c1, g1) = (c, g) \<or> randomize_slot rb gen c n ic pid g = Inr (c1, g1)"
    by blast
  from step Cons.prems(2) have "slots c1 m \<noteq> None"
    by (auto dest: randomize_slot_keeps_present)
  from Cons.IH[OF rest this] show ?case .
qed

lemma randomize_loop_present:
  "randomize_loop rb gen ic pid ns (c, g) = Inr (c', g') \<Longrightarrow> m \<in> set ns \<Longrightarrow> slots c' m \<noteq> None"
proof (induction ns arbitrary: c g)
  case Nil
  then show ?case by simp
next
  case (Cons n ns)
  from randomize_loop_step[OF Cons.prems(1)] obtain c1 g1 where
    rest: "randomize_loop rb gen ic pid ns (c1, g1) = Inr (c', g')" and
    step: "(c1, g1) = (c, g) \<and> slots c n \<noteq> None \<or> randomize_slot rb gen c n ic pid g = Inr (c1, g1)"
    by blast
  show ?case
  proof (cases "m = n")
    case True
    from step have "slots c1 n \<noteq> None" by (auto dest: randomize_slot_present)
    with True randomize_loop_keeps_present[OF rest] show ?thesis by simp
  next
    case False
    with Cons.prems(2) Cons.IH[OF rest] show ?thesis by simp
  qed
qed

lemma randomize_all_total:
  "\<exists>c' g'. randomize_all rb gen config ic pid g = Inr (c', g')"
proof -
  obtain c1 g1 where "randomize_loop rb gen ic pid slot_names (config, g) = Inr (c1, g1)"
    using randomize_loop_total[of slot_names rb gen ic pid config g] by auto
  then show ?thesis by (simp add: randomize_all_def)
qed

text \<open>The two passes after the loop, slot by slot.\<close>

lemma full_body_logic_other:
  "m \<noteq> ''upper_body'' \<Longrightarrow> m \<noteq> ''lower_body'' \<Longrightarrow> slots (apply_full_body_logic c) m = slots c m"
  by (simp add: apply_full_body_logic_def clear_unless_locked_def set_slot_def
           split: option.splits)

lemma full_body_logic_keeps_locked:
  "slots c m = Some s \<Longrightarrow> locked s \<Longrightarrow> slots (apply_full_body_logic c) m = Some s"
  by (auto simp: apply_full_body_logic_def clear_unless_locked_def set_slot_def
           split: option.splits)

lemma full_body_logic_clears:
  assumes "slots c ''full_body'' = Some fb" "enabled fb" "truthy (slot_value fb)"
    and "m = ''upper_body'' \<or> m = ''lower_body''" "slots c m = Some s"
  shows "\<exists>s'. slots (apply_full_body_logic c) m = Some s' \<and>
           (locked s' \<or> slot_value s' = None \<and> value_id s' = None)"
  using assms
  by (auto simp: apply_full_body_logic_def clear_unless_locked_def set_slot_def clear_value_def
           split: option.splits)

lemma leg_logic_other:
  "m \<noteq> ''legs'' \<Longrightarrow> slots (apply_lower_body_leg_logic gen c) m = slots c m"
  by (simp add: apply_lower_body_leg_logic_def set_slot_def split: option.splits)

lemma randomize_all_keeps_locked_except_legs:
  assumes "randomize_all rb gen config ic pid g = Inr (c', g')"
    and "slots config m = Some s" "locked s" "m \<noteq> ''legs''"
  shows "slots c' m = Some s"
proof -
  from assms(1) obtain c1 where
    loop: "randomize_loop rb gen ic pid slot_names (config, g) = Inr (c1, g')" and
    c': "c' = apply_lower_body_leg_logic gen
               (if full_body_mode c1 then apply_full_body_logic c1 else c1)"
    by (auto simp: randomize_all_def split: sum.splits)
  from randomize_loop_keeps_locked[OF loop assms(2,3)] have "slots c1 m = Some s" .
  then have "slots (if full_body_mode c1 then apply_full_body_logic c1 else c1) m = Some s"
    using assms(3) by (simp add: full_body_logic_keeps_locked)
  with assms(4) c' show ?thesis by (simp add: leg_logic_other)
qed

text \<open>
  Claim C2. A slot whose \<open>locked\<close> flag is set keeps its value and its value id through
  \<open>randomize_slot\<close> and through the loop and the full-body pass of \<open>randomize_all\<close>
  (lemmas \<open>randomize_slot_keeps_locked\<close> and \<open>randomize_all_keeps_locked_except_legs\<close>).
  The leg-coverage pass does not test the flag: with a lower-body item that covers the
  legs, \<open>randomize_all\<close> clears the value and the value id of a locked legs slot.
\<close>

theorem locked_legs_cleared_by_randomize_all:
  "map_option (\<lambda>s. (locked s, slot_value s, value_id s)) (slots config_locked_legs ''legs'')
     = Some (True, Some ''thighhighs'', Some ''thighhighs'') \<and>
   map_option (\<lambda>s. (locked s, slot_value s, value_id s))
     (slot_after (randomize_all counter_rb gen_skirt config_locked_legs False None (0::nat)) ''legs'')
     = Some (True, None, None)"
  by code_simp

text \<open>
  Claim C3, as amended. After \<open>randomize_all\<close> on a configuration with \<open>full_body_mode\<close>
  set, if the full-body slot is enabled and its value is neither null nor the empty
  string, then the upper-body and the lower-body slot each are locked or have a null value
  and a null value id. \<open>randomize_all\<close> always returns.
\<close>

theorem full_body_override_after_randomize_all:
  assumes "full_body_mode config"
  shows "\<exists>c' g'. randomize_all rb gen config ic pid g = Inr (c', g') \<and>
           (\<forall>fb. slots c' ''full_body'' = Some fb \<and> enabled fb \<and> truthy (slot_value fb) \<longrightarrow>
              (\<exists>u l. slots c' ''upper_body'' = Some u \<and> slots c' ''lower_body'' = Some l \<and>
                 (locked u \<or> slot_value u = None \<and> value_id u = None) \<and>
                 (locked l \<or> slot_value l = None \<and> value_id l = None)))"
proof -
  obtain c1 g1 where loop: "randomize_loop rb gen ic pid slot_names (config, g) = Inr (c1, g1)"
    using randomize_loop_total[of slot_names rb gen ic pid config g] by auto
  define c2 where "c2 = apply_full_body_logic c1"
  define c' where "c' = apply_lower_body_leg_logic gen c2"
  from randomize_loop_mode[OF loop] assms have mode: "full_body_mode c1" by simp
  with loop have res: "randomize_all rb gen config ic pid g = Inr (c', g1)"
    by (simp add: randomize_all_def c'_def c2_def)
  have in_names: "''upper_body'' \<in> set slot_names" "''lower_body'' \<in> set slot_names"
    by (simp_all add: slot_names_def SLOT_DEFINITIONS_def)
  from randomize_loop_present[OF loop in_names(1)] obtain u1 where u1: "slots c1 ''upper_body'' = Some u1"
    by auto
  from randomize_loop_present[OF loop in_names(2)] obtain l1 where l1: "slots c1 ''lower_body'' = Some l1"
    by auto
  have "\<exists>u l. slots c' ''upper_body'' = Some u \<and> slots c' ''lower_body'' = Some l \<and>
          (locked u \<or> slot_value u = None \<and> value_id u = None) \<and>
          (locked l \<or> slot_value l = None \<and> value_id l = None)"
    if fb: "slots c' ''full_body'' = Some fb" "enabled fb" "truthy (slot_value fb)" for fb
  proof -
    from fb(1) have "slots c1 ''full_body'' = Some fb"
      by (simp add: c'_def c2_def leg_logic_other full_body_logic_other)
    from full_body_logic_clears[OF this fb(2,3) _ u1] full_body_logic_clears[OF this fb(2,3) _ l1]
    show ?thesis by (auto simp: c'_def c2_def leg_logic_other)
  qed
  with res show ?thesis by blast
qed

theorem full_body_override_witness:
  "full_body_mode create_default_config \<and>
   (\<exists>c' g' fb u l.
      randomize_all counter_rb gen_outfits create_default_config False None (0::nat) = Inr (c', g') \<and>
      slots c' ''full_body'' = Some fb \<and> enabled fb \<and> slot_value fb = Some ''dress'' \<and>
      slots c' ''upper_body'' = Some u \<and> slots c' ''lower_body'' = Some l \<and>
      (locked u \<or> slot_value u = None \<and> value_id u = None) \<and>
      (locked l \<or> slot_value l = None \<and> value_id l = None))"
proof -
  let ?r = "randomize_all counter_rb gen_outfits create_default_config False None (0::nat)"
  have mode: "full_body_mode create_default_config"
    by code_simp
  have ev: "map_option (\<lambda>s. (enabled s, slot_value s)) (slot_after ?r ''full_body'')
              = Some (True, Some ''dress'')"
    by code_simp
  from full_body_override_after_randomize_all[OF mode, of counter_rb gen_outfits False None 0]
  obtain c' g' where r: "?r = Inr (c', g')" and
    imp: "\<And>fb. slots c' ''full_body'' = Some fb \<and> enabled fb \<and> truthy (slot_value fb) \<Longrightarrow>
            \<exists>u l. slots c' ''upper_body'' = Some u \<and> slots c' ''lower_body'' = Some l \<and>
              (locked u \<or> slot_value u = None \<and> value_id u = None) \<and>
              (locked l \<or> slot_value l = None \<and> value_id l = None)"
    by blast
  from ev r obtain fb where fb: "slots c' ''full_body'' = Some fb" "enabled fb"
      "slot_value fb = Some ''dress''"
    by (auto simp: slot_after_def)
  then have "truthy (slot_value fb)" by (simp add: truthy_def)
  with imp[of fb] fb r mode show ?thesis by blast
qed

text \<open>
  The claim as stated fails when the full-body slot is disabled: it gets a value all the
  same, and the upper-body slot keeps its own.
\<close>

theorem full_body_override_counterexample:
  "full_body_mode config_full_body_disabled \<and>
   map_option slot_value
     (slot_after (randomize_all counter_rb gen_outfits config_full_body_disabled False None (0::nat))
        ''full_body'') = Some (Some ''dress'') \<and>
   map_option (\<lambda>s. (locked s, slot_value s))
     (slot_after (randomize_all counter_rb gen_outfits config_full_body_disabled False None (0::nat))
        ''upper_body'') = Some (False, Some ''shirt'')"
  by code_simp

section \<open>Determinism of generation\<close>

text \<open>
  Claim C4. \<open>generate\<close> returns a prompt, and the prompt (with the state of \<open>random\<close>
  left behind) is the same for any two states \<open>g0\<close> and \<open>g1\<close> of \<open>random\<close> before the
  call, given the same seed, catalogs and inputs.
\<close>

theorem generate_deterministic:
  "\<exists>prompt g'.
     generate rseed rb gen g0 seed language palette fbm upper_body_mode prefix lock_of
       = Inr (prompt, g') \<and>
     generate rseed rb gen g1 seed language palette fbm upper_body_mode prefix lock_of
       = Inr (prompt, g')"
proof -
  have same: "generate rseed rb gen g0 seed language palette fbm upper_body_mode prefix lock_of
      = generate rseed rb gen g1 seed language palette fbm upper_body_mode prefix lock_of"
    by (simp add: generate_def)
  define palette_id where "palette_id = (if palette \<noteq> ''none'' then Some palette else None)"
  obtain c' g' where
    "randomize_all rb gen (create_default_config\<lparr>full_body_mode := fbm\<rparr>)
       (palette_id \<noteq> None) palette_id (rseed seed) = Inr (c', g')"
    using randomize_all_total[of rb gen "create_default_config\<lparr>full_body_mode := fbm\<rparr>"
        "palette_id \<noteq> None" palette_id "rseed seed"]
    by auto
  then have "\<exists>prompt g'.
     generate rseed rb gen g0 seed language palette fbm upper_body_mode prefix lock_of
       = Inr (prompt, g')"
    unfolding generate_def Let_def palette_id_def by (cases "strip prefix = []") simp_all
  with same show ?thesis by auto
qed

theorem generate_deterministic_witness:
  "\<exists>prompt g'.
     generate counter_seed counter_rb gen_outfits (7::nat) 42 ''en'' ''warm'' True False []
       (\<lambda>slot_name. []) = Inr (prompt, g') \<and>
     generate counter_seed counter_rb gen_outfits (1000::nat) 42 ''en'' ''warm'' True False []
       (\<lambda>slot_name. []) = Inr (prompt, g')"
  by (rule generate_deterministic)

section \<open>Prompt assembly: weights\<close>

lemma round_half_even_near: "\<bar>x - of_int (round_half_even x)\<bar> \<le> 1 / 2"
proof -
  define f where "f = \<lfloor>x\<rfloor>"
  have lo: "of_int f \<le> x" and hi: "x < of_int f + 1"
    unfolding f_def by linarith+
  have "round_half_even x =
      (if x - of_int f < 1 / 2 then f
       else if 1 / 2 < x - of_int f then f + 1
       else if even f then f else f + 1)"
    by (simp add: round_half_even_def f_def Let_def)
  with lo hi show ?thesis
    by (auto simp: abs_if)
qed

lemma round_half_even_nonneg: "0 \<le> x \<Longrightarrow> 0 \<le> round_half_even x"
  by (auto simp: round_half_even_def Let_def)

lemma format_1f_shape:
  "\<exists>n. format_1f w = (if w < 0 then ''-'' else []) @ str_nat (n div 10) @ ''.'' @ [digit_char (n mod 10)]
       \<and> \<bar>\<bar>w\<bar> * 10 - of_nat n\<bar> \<le> 1 / 2"
proof -
  define n where "n = nat (round_half_even (\<bar>w\<bar> * 10))"
  have "0 \<le> round_half_even (\<bar>w\<bar> * 10)"
    by (rule round_half_even_nonneg) simp
  then have "(of_nat n :: rat) = of_int (round_half_even (\<bar>w\<bar> * 10))"
    by (simp add: n_def)
  with round_half_even_near[of "\<bar>w\<bar> * 10"] have "\<bar>\<bar>w\<bar> * 10 - of_nat n\<bar> \<le> 1 / 2"
    by simp
  moreover have "format_1f w =
      (if w < 0 then ''-'' else []) @ str_nat (n div 10) @ ''.'' @ [digit_char (n mod 10)]"
    by (simp add: format_1f_def n_def Let_def)
  ultimately show ?thesis by blast
qed

lemma build_loop_concat:
  "build_loop f ns parts = parts @ concat (map (\<lambda>n. case f n of None \<Rightarrow> [] | Some p \<Rightarrow> [p]) ns)"
  by (induction ns arbitrary: parts) (auto split: option.splits)

lemma emitted_present: "emitted gen config n \<Longrightarrow> slots config n \<noteq> None"
  by (auto simp: emitted_def split: option.splits)

lemma parts_of_emitted:
  "concat (map (\<lambda>n. case prompt_part gen config language n of None \<Rightarrow> [] | Some p \<Rightarrow> [p]) ns)
   = map (\<lambda>n. case slots config n of
                 None \<Rightarrow> []
               | Some slot \<Rightarrow> apply_weight (weight slot) (segment_text gen n slot language))
       (filter (emitted gen config) ns)"
  by (induction ns) (auto simp: prompt_part_def dest: emitted_present split: option.splits)

lemma build_parts_eq:
  "build_parts gen config language =
     ''1girl'' # map (\<lambda>n. case slots config n of
                 None \<Rightarrow> []
               | Some slot \<Rightarrow> apply_weight (weight slot) (segment_text gen n slot language))
       (filter (emitted gen config) slot_order)"
  by (simp add: build_parts_def build_loop_concat parts_of_emitted)

lemma apply_weight_cases:
  "apply_weight w t = (if w = 1 then t else ''('' @ t @ '':'' @ format_1f w @ '')'')"
  by (simp add: apply_weight_def)

text \<open>
  Claim C9. The assembled prompt is the subject marker followed by one segment for each
  emitted slot, in the order of \<open>slot_order\<close>, joined by a comma and a space. The segment
  of a slot of weight 1 is its bare text; for any other weight it is the text wrapped as
  \<open>(text:weight)\<close>, the weight printed with one fractional digit, nearest to the weight.
  The float 1.3 prints as \<open>1.3\<close>.
\<close>

theorem weight_serialization:
  "build_prompt_localized gen config language =
     join '', ''
       (''1girl'' #
        map (\<lambda>slot_name.
               case slots config slot_name of
                 None \<Rightarrow> []
               | Some slot \<Rightarrow>
                   (if weight slot = 1 then segment_text gen slot_name slot language
                    else ''('' @ segment_text gen slot_name slot language @ '':'' @
                         format_1f (weight slot) @ '')''))
          (filter (emitted gen config) slot_order)) \<and>
   (\<forall>w. \<exists>n. format_1f w =
             (if w < 0 then ''-'' else []) @ str_nat (n div 10) @ ''.'' @ [digit_char (n mod 10)] \<and>
           \<bar>\<bar>w\<bar> * 10 - of_nat n\<bar> \<le> 1 / 2) \<and>
   format_1f float_1_3 = ''1.3''"
proof -
  have "build_prompt_localized gen config language =
     join '', ''
       (''1girl'' #
        map (\<lambda>slot_name.
               case slots config slot_name of
                 None \<Rightarrow> []
               | Some slot \<Rightarrow>
                   (if weight slot = 1 then segment_text gen slot_name slot language
                    else ''('' @ segment_text gen slot_name slot language @ '':'' @
                         format_1f (weight slot) @ '')''))
          (filter (emitted gen config) slot_order))"
    by (simp add: build_prompt_localized_def build_parts_eq apply_weight_cases
             cong: option.case_cong)
  moreover have "format_1f float_1_3 = ''1.3''"
    by code_simp
  ultimately show ?thesis using format_1f_shape by blast
qed

theorem weight_serialization_witness:
  "build_prompt_localized gen_scenario config_weighted ''en'' = ''1girl, blue eyes, (red dress:1.3)''"
proof -
  have "join '', ''
       (''1girl'' #
        map (\<lambda>slot_name.
               case slots config_weighted slot_name of
                 None \<Rightarrow> []
               | Some slot \<Rightarrow>
                   (if weight slot = 1 then segment_text gen_scenario slot_name slot ''en''
                    else ''('' @ segment_text gen_scenario slot_name slot ''en'' @ '':'' @
                         format_1f (weight slot) @ '')''))
          (filter (emitted gen_scenario config_weighted) slot_order))
       = ''1girl, blue eyes, (red dress:1.3)''"
    by code_simp
  with weight_serialization[of gen_scenario config_weighted "''en''"] show ?thesis by simp
qed

section \<open>Colour extraction\<close>

lemma lower_char_dollar: "(lower_char c = CHR ''$'') = (c = CHR ''$'')"
  by (simp add: lower_char_def)

lemma lower_char_dollar': "(CHR ''$'' = lower_char c) = (CHR ''$'' = c)"
  using lower_char_dollar[of c] by auto

lemma dollar_free_lower: "dollar_free (lower s) = dollar_free s"
  by (induction s) (simp_all add: dollar_free_def lower_def lower_char_dollar')

lemma dollar_free_take: "dollar_free s \<Longrightarrow> dollar_free (take k s)"
  by (auto simp: dollar_free_def dest: in_set_takeD)

lemma walk_string_returns: "walk_string text canonical i rest lm = Inr r \<Longrightarrow> r = lm"
  by (auto simp: walk_string_def split: if_splits list.splits)

lemma walk_string_raises: "walk_string text canonical i rest lm = Inl e \<Longrightarrow> e = TypeError"
  by (auto simp: walk_string_def split: if_splits list.splits)

lemma find_prefix_loop_sound:
  "find_prefix_loop text node i rest lm = Inr (Some (c, n)) \<Longrightarrow>
     lm = Some (c, n) \<or>
     (\<exists>k. 1 \<le> k \<and> k \<le> length rest \<and> n = i + k + 1 \<and> i + k < length text \<and>
          text ! (i + k) = CHR '' '' \<and> trie_lookup node (take k rest) = Some c)"
proof (induction rest arbitrary: node i lm)
  case Nil
  then show ?case by simp
next
  case (Cons ch rest)
  show ?case
  proof (cases "ch = CHR ''$''")
    case True
    with Cons.prems have "lm = Some (c, n)"
      by (auto split: option.splits dest: walk_string_returns)
    then show ?thesis by simp
  next
    case plain: False
    show ?thesis
    proof (cases "map_of (children node) ch")
      case None
      with Cons.prems plain show ?thesis by simp
    next
      case (Some node')
      define lm' where "lm' =
        (case terminal node' of
           None \<Rightarrow> lm
         | Some canonical \<Rightarrow>
             (if i + 1 < length text \<and> text ! (i + 1) = CHR '' ''
              then Some (canonical, i + 2) else lm))"
      from Cons.prems Some plain
      have run: "find_prefix_loop text node' (i + 1) rest lm' = Inr (Some (c, n))"
        by (simp add: lm'_def)
      from Cons.IH[OF run] consider
        (kept) "lm' = Some (c, n)"
      | (later) k where "1 \<le> k" "k \<le> length rest" "n = i + 1 + k + 1" "i + 1 + k < length text"
          "text ! (i + 1 + k) = CHR '' ''" "trie_lookup node' (take k rest) = Some c"
        by auto
      then show ?thesis
      proof cases
        case kept
        show ?thesis
        proof (cases "lm = Some (c, n)")
          case True
          then show ?thesis by simp
        next
          case False
          with kept have "terminal node' = Some c" "i + 1 < length text"
            "text ! (i + 1) = CHR '' ''" "n = i + 2"
            by (auto simp: lm'_def split: option.splits if_splits)
          with Some have "1 \<le> (1::nat) \<and> 1 \<le> length (ch # rest) \<and> n = i + 1 + 1 \<and>
              i + 1 < length text \<and> text ! (i + 1) = CHR '' '' \<and>
              trie_lookup node (take 1 (ch # rest)) = Some c"
            by simp
          then show ?thesis by blast
        qed
      next
        case later
        with Some have "1 \<le> Suc k \<and> Suc k \<le> length (ch # rest) \<and> n = i + Suc k + 1 \<and>
            i + Suc k < length text \<and> text ! (i + Suc k) = CHR '' '' \<and>
            trie_lookup node (take (Suc k) (ch # rest)) = Some c"
          by simp
        then show ?thesis by blast
      qed
    qed
  qed
qed

lemma find_prefix_loop_keeps:
  "find_prefix_loop text node i rest (Some (c, m)) = Inr r \<Longrightarrow>
   \<exists>c' n. r = Some (c', n) \<and> ((c', n) = (c, m) \<or> i + 2 \<le> n)"
proof (induction rest arbitrary: node i c m)
  case Nil
  then show ?case by auto
next
  case (Cons ch rest)
  show ?case
  proof (cases "ch = CHR ''$''")
    case True
    with Cons.prems have "r = Some (c, m)"
      by (auto split: option.splits dest: walk_string_returns)
    then show ?thesis by simp
  next
    case plain: False
    show ?thesis
    proof (cases "map_of (children node) ch")
      case None
      with Cons.prems plain show ?thesis by auto
    next
      case (Some node')
      show ?thesis
      proof (cases "\<exists>canonical. terminal node' = Some canonical \<and> i + 1 < length text \<and>
                      text ! (i + 1) = CHR '' ''")
        case True
        then obtain canonical where t: "terminal node' = Some canonical" "i + 1 < length text"
          "text ! (i + 1) = CHR '' ''" by blast
        with Cons.prems Some plain
        have "find_prefix_loop text node' (i + 1) rest (Some (canonical, i + 2)) = Inr r"
          by simp
        from Cons.IH[OF this] show ?thesis by auto
      next
        case False
        with Cons.prems Some plain
        have "find_prefix_loop text node' (i + 1) rest (Some (c, m)) = Inr r"
          by (auto split: option.splits)
        from Cons.IH[OF this] show ?thesis by auto
      qed
    qed
  qed
qed

lemma find_prefix_loop_complete:
  "1 \<le> k \<Longrightarrow> k \<le> length rest \<Longrightarrow> trie_lookup node (take k rest) = Some c \<Longrightarrow>
   i + k < length text \<Longrightarrow> text ! (i + k) = CHR '' '' \<Longrightarrow> dollar_free (take k rest) \<Longrightarrow>
   find_prefix_loop text node i rest lm = Inr r \<Longrightarrow>
   \<exists>c' n. r = Some (c', n) \<and> i + k + 1 \<le> n"
proof (induction rest arbitrary: node i lm k)
  case Nil
  then show ?case by simp
next
  case (Cons ch rest)
  from Cons.prems(1) obtain j where k: "k = Suc j" by (cases k) auto
  with Cons.prems(6) have plain: "ch \<noteq> CHR ''$''" and free: "dollar_free (take j rest)"
    by (auto simp: dollar_free_def)
  from k Cons.prems(3) obtain node' where child: "map_of (children node) ch = Some node'"
    and look: "trie_lookup node' (take j rest) = Some c"
    by (auto split: option.splits)
  show ?case
  proof (cases j)
    case 0
    with look have "terminal node' = Some c" by simp
    moreover from Cons.prems(4,5) k 0 have "i + 1 < length text" "text ! (i + 1) = CHR '' ''"
      by simp_all
    ultimately have "find_prefix_loop text node' (i + 1) rest (Some (c, i + 2)) = Inr r"
      using Cons.prems(7) child plain by simp
    from find_prefix_loop_keeps[OF this] k 0 show ?thesis by auto
  next
    case (Suc j')
    with Cons.prems k have j1: "1 \<le> j" and j2: "j \<le> length rest"
      and j3: "i + 1 + j < length text" and j4: "text ! (i + 1 + j) = CHR '' ''"
      by simp_all
    from Cons.prems(7) child plain obtain lm' where
      run: "find_prefix_loop text node' (i + 1) rest lm' = Inr r"
      by simp
    from Cons.IH[OF j1 j2 look j3 j4 free run] k show ?thesis by auto
  qed
qed

lemma find_prefix_loop_total:
  "dollar_free rest \<Longrightarrow> \<exists>r. find_prefix_loop text node i rest lm = Inr r"
proof (induction rest arbitrary: node i lm)
  case Nil
  then show ?case by simp
next
  case (Cons ch rest)
  then have plain: "ch \<noteq> CHR ''$''" and free: "dollar_free rest"
    by (auto simp: dollar_free_def)
  show ?case
  proof (cases "map_of (children node) ch")
    case None
    with plain show ?thesis by simp
  next
    case (Some node')
    with plain Cons.IH[OF free] show ?thesis by simp
  qed
qed

lemma find_prefix_loop_raises:
  "find_prefix_loop text node i rest lm = Inl e \<Longrightarrow> e = TypeError"
proof (induction rest arbitrary: node i lm)
  case Nil
  then show ?case by simp
next
  case (Cons ch rest)
  show ?case
  proof (cases "ch = CHR ''$''")
    case True
    with Cons.prems show ?thesis
      by (auto split: option.splits dest: walk_string_raises)
  next
    case False
    with Cons.prems obtain node' lm' where
      "find_prefix_loop text node' (i + 1) rest lm' = Inl e"
      by (auto split: option.splits)
    from Cons.IH[OF this] show ?thesis .
  qed
qed

lemma find_prefix_total: "dollar_free text \<Longrightarrow> \<exists>r. find_prefix node text = Inr r"
  unfolding find_prefix_def by (rule find_prefix_loop_total) (simp add: dollar_free_lower)

lemma find_prefix_raises: "find_prefix node text = Inl e \<Longrightarrow> e = TypeError \<and> \<not> dollar_free text"
proof -
  assume e: "find_prefix node text = Inl e"
  then have "e = TypeError"
    unfolding find_prefix_def by (rule find_prefix_loop_raises)
  moreover have "\<not> dollar_free text"
  proof
    assume "dollar_free text"
    from find_prefix_total[OF this, of node] e show False by auto
  qed
  ultimately show ?thesis ..
qed

lemma extract_color_total: "dollar_free text \<Longrightarrow> \<exists>r. extract_color idx text = Inr r"
  using find_prefix_total[of "text" "color_trie idx"]
  by (auto simp: extract_color_def split: option.splits)

lemma extract_color_raises:
  "extract_color idx text = Inl e \<Longrightarrow> e = TypeError \<and> \<not> dollar_free text"
  using find_prefix_raises[of "color_trie idx" "text" e]
  by (auto simp: extract_color_def split: sum.splits option.splits)

lemma trie_lookup_empty: "trie_lookup (Trie None []) w = None"
  by (cases w) simp_all

lemma trie_lookup_insert:
  "trie_lookup (trie_insert w s t) w' = (if w' = w then Some s else trie_lookup t w')"
proof (induction w arbitrary: t w')
  case Nil
  then show ?case by (cases w') simp_all
next
  case (Cons c w)
  show ?case
  proof (cases w')
    case Nil
    then show ?thesis by simp
  next
    case (Cons c' w'')
    then show ?thesis
      by (auto simp: update_conv' Cons.IH trie_lookup_empty split: option.splits)
  qed
qed

text \<open>The item indices and the colour trie do not touch each other.\<close>

lemma index_word_trie: "color_trie (index_word s i n w idx) = color_trie idx"
  by (simp add: index_word_def)

lemma fold_index_word_trie: "color_trie (fold (index_word s i n) ws idx) = color_trie idx"
  by (induction ws arbitrary: idx) (simp_all add: index_word_trie)

lemma index_name_trie: "color_trie (index_name name s i idx) = color_trie idx"
  by (simp add: index_name_def Let_def fold_index_word_trie)

lemma index_localized_trie: "color_trie (index_localized name s i e idx) = color_trie idx"
  by (simp add: index_localized_def index_name_trie split: prod.splits)

lemma fold_index_localized_trie:
  "color_trie (fold (index_localized name s i) es idx) = color_trie idx"
  by (induction es arbitrary: idx) (simp_all add: index_localized_trie)

lemma index_item_trie: "color_trie (index_item s it idx) = color_trie idx"
  by (simp add: index_item_def Let_def fold_index_localized_trie index_name_trie)

lemma index_slot_trie: "color_trie (index_slot gen s idx) = color_trie idx"
proof -
  have "color_trie (fold (index_item s) its idx) = color_trie idx" for its
    by (induction its arbitrary: idx) (simp_all add: index_item_trie)
  then show ?thesis by (simp add: index_slot_def)
qed

lemma fold_index_slot_trie: "color_trie (fold (index_slot gen) ss idx) = color_trie idx"
  by (induction ss arbitrary: idx) (simp_all add: index_slot_trie)

lemma stored_index_color:
  "(trie_lookup (color_trie (index_color c idx)) w = None)
     = (w \<noteq> lower c \<and> trie_lookup (color_trie idx) w = None)"
  by (simp add: index_color_def ColorTrie_insert_def trie_lookup_insert)

lemma stored_fold_index_color:
  "(trie_lookup (color_trie (fold index_color cs idx)) w = None)
     = (w \<notin> lower ` set cs \<and> trie_lookup (color_trie idx) w = None)"
  by (induction cs arbitrary: idx) (auto simp: stored_index_color)

lemma stored_index_color_name:
  "(trie_lookup (color_trie (index_color_name c e idx)) w = None)
     = (\<not> (snd e \<noteq> [] \<and> w = lower (snd e)) \<and> trie_lookup (color_trie idx) w = None)"
  by (cases e) (simp add: index_color_name_def ColorTrie_insert_def trie_lookup_insert)

lemma stored_fold_index_color_name:
  "(trie_lookup (color_trie (fold (index_color_name c) es idx)) w = None)
     = (w \<notin> lower ` set (filter (\<lambda>l. l \<noteq> []) (map snd es)) \<and>
        trie_lookup (color_trie idx) w = None)"
  by (induction es arbitrary: idx) (auto simp: stored_index_color_name)

lemma stored_fold_index_color_i18n:
  "(trie_lookup (color_trie (fold index_color_i18n entries idx)) w = None)
     = (w \<notin> lower ` set (concat (map (\<lambda>entry. filter (\<lambda>l. l \<noteq> []) (map snd (snd entry))) entries))
        \<and> trie_lookup (color_trie idx) w = None)"
proof (induction entries arbitrary: idx)
  case Nil
  then show ?case by simp
next
  case (Cons e entries)
  have step: "fold index_color_i18n (e # entries) idx
      = fold index_color_i18n entries (fold (index_color_name (fst e)) (snd e) idx)"
    by (cases e) (simp add: index_color_i18n_def)
  show ?case
    unfolding step Cons.IH stored_fold_index_color_name by auto
qed

lemma stored_build_indices:
  "(trie_lookup (color_trie (build_indices gen)) w = None) = (w \<notin> lower ` set (color_words gen))"
  by (auto simp: build_indices_def color_words_def stored_fold_index_color_i18n
        stored_fold_index_color fold_index_slot_trie empty_indices_def trie_lookup_empty)

text \<open>
  The colour surface forms found along a text: a candidate is a prefix of the lowered
  text that is a colour surface form and is followed at once by a space.
\<close>

lemma find_prefix_found:
  assumes "find_prefix (color_trie (build_indices gen)) text = Inr (Some (c, n))"
  shows "\<exists>k. n = k + 1 \<and> 1 \<le> k \<and> k < length text \<and> text ! k = CHR '' '' \<and>
      take k (lower text) \<in> lower ` set (color_words gen) \<and>
      trie_lookup (color_trie (build_indices gen)) (take k (lower text)) = Some c"
proof -
  from assms find_prefix_loop_sound[of "text" "color_trie (build_indices gen)" 0 "lower text" None c n]
  obtain k where k: "1 \<le> k" "n = k + 1" "k < length text" "text ! k = CHR '' ''"
    "trie_lookup (color_trie (build_indices gen)) (take k (lower text)) = Some c"
    by (auto simp: find_prefix_def)
  then have "take k (lower text) \<in> lower ` set (color_words gen)"
    using stored_build_indices[of gen "take k (lower text)"] by simp
  with k show ?thesis by simp
qed

lemma color_word_dollar_free:
  "list_all dollar_free (color_words gen) \<Longrightarrow> w \<in> lower ` set (color_words gen) \<Longrightarrow> dollar_free w"
  by (auto simp: list_all_iff dollar_free_lower)

lemma find_prefix_longest:
  assumes k: "1 \<le> k" "k < length text" "text ! k = CHR '' ''"
      "take k (lower text) \<in> lower ` set (color_words gen)"
    and free: "dollar_free (take k (lower text))"
    and r: "find_prefix (color_trie (build_indices gen)) text = Inr r"
  shows "\<exists>c n. r = Some (c, n) \<and> k < n"
proof -
  have len: "length (lower text) = length text" by (simp add: lower_def)
  from k(4) obtain c where
    look: "trie_lookup (color_trie (build_indices gen)) (take k (lower text)) = Some c"
    using stored_build_indices[of gen "take k (lower text)"] by auto
  from k(2) len have le: "k \<le> length (lower text)" by simp
  from k(2) have lt: "0 + k < length text" by simp
  from k(3) have sp: "text ! (0 + k) = CHR '' ''" by simp
  from r have run: "find_prefix_loop text (color_trie (build_indices gen)) 0 (lower text) None = Inr r"
    by (simp add: find_prefix_def)
  from find_prefix_loop_complete[OF k(1) le look lt sp free run] show ?thesis by auto
qed

text \<open>Without a candidate in a text without \<open>$\<close> no colour is extracted.\<close>

lemma extract_color_no_candidate:
  assumes free: "dollar_free text"
    and nocand: "\<forall>k. 1 \<le> k \<and> k < length text \<and> text ! k = CHR '' '' \<longrightarrow>
         take k (lower text) \<notin> lower ` set (color_words gen)"
  shows "extract_color (build_indices gen) text = Inr (None, text)"
proof -
  let ?t = "color_trie (build_indices gen)"
  from find_prefix_total[OF free, of ?t] obtain r where r: "find_prefix ?t text = Inr r"
    by blast
  show ?thesis
  proof (cases r)
    case None
    with r show ?thesis by (simp add: extract_color_def)
  next
    case (Some p)
    obtain c n where "p = (c, n)" by (cases p)
    with Some r find_prefix_found[of gen "text" c n] obtain k where "1 \<le> k" "k < length text"
      "text ! k = CHR '' ''" "take k (lower text) \<in> lower ` set (color_words gen)"
      by blast
    with nocand have False by blast
    then show ?thesis ..
  qed
qed

text \<open>
  Claim C10, as amended. Colour extraction accepts only a colour surface form that is a
  prefix of the token text and is followed at once by a space, and of these it takes the
  longest. A token text that is a colour surface form, with no shorter colour surface
  form in front of a space in it, gives no colour and goes unchanged to the matching
  cascade; so does every text without \<open>$\<close> in which no colour surface form is followed by a
  space. A text without \<open>$\<close> in which one is followed by a space gives a colour. Colour
  extraction raises only \<open>TypeError\<close>, and only on a text that holds \<open>$\<close>. The colour
  words are taken not to hold \<open>$\<close>.
\<close>

theorem color_prefix_needs_space:
  assumes "list_all dollar_free (color_words gen)"
  shows
  "(\<forall>c n. find_prefix (color_trie (build_indices gen)) text = Inr (Some (c, n)) \<longrightarrow>
      2 \<le> n \<and> n \<le> length text \<and> text ! (n - 1) = CHR '' '' \<and>
      take (n - 1) (lower text) \<in> lower ` set (color_words gen) \<and>
      extract_color (build_indices gen) text = Inr (Some c, strip (drop n text)) \<and>
      (\<forall>k. 1 \<le> k \<and> k < length text \<and> text ! k = CHR '' '' \<and>
           take k (lower text) \<in> lower ` set (color_words gen) \<longrightarrow> k < n)) \<and>
   (lower text \<in> lower ` set (color_words gen) \<and>
    (\<forall>k. 1 \<le> k \<and> k < length text \<and> text ! k = CHR '' '' \<longrightarrow>
         take k (lower text) \<notin> lower ` set (color_words gen)) \<longrightarrow>
      extract_color (build_indices gen) text = Inr (None, text)) \<and>
   (dollar_free text \<and>
    (\<forall>k. 1 \<le> k \<and> k < length text \<and> text ! k = CHR '' '' \<longrightarrow>
         take k (lower text) \<notin> lower ` set (color_words gen)) \<longrightarrow>
      extract_color (build_indices gen) text = Inr (None, text)) \<and>
   (dollar_free text \<and>
    (\<exists>k. 1 \<le> k \<and> k < length text \<and> text ! k = CHR '' '' \<and>
         take k (lower text) \<in> lower ` set (color_words gen)) \<longrightarrow>
      (\<exists>c n. find_prefix (color_trie (build_indices gen)) text = Inr (Some (c, n)))) \<and>
   (\<forall>e. extract_color (build_indices gen) text = Inl e \<longrightarrow> e = TypeError \<and> \<not> dollar_free text)"
proof -
  let ?t = "color_trie (build_indices gen)"
  have first: "2 \<le> n \<and> n \<le> length text \<and> text ! (n - 1) = CHR '' '' \<and>
      take (n - 1) (lower text) \<in> lower ` set (color_words gen) \<and>
      extract_color (build_indices gen) text = Inr (Some c, strip (drop n text)) \<and>
      (\<forall>k. 1 \<le> k \<and> k < length text \<and> text ! k = CHR '' '' \<and>
           take k (lower text) \<in> lower ` set (color_words gen) \<longrightarrow> k < n)"
    if found: "find_prefix ?t text = Inr (Some (c, n))" for c n
  proof -
    from find_prefix_found[OF found] obtain k where k: "n = k + 1" "1 \<le> k" "k < length text"
      "text ! k = CHR '' ''" "take k (lower text) \<in> lower ` set (color_words gen)"
      by blast
    have "j < n" if "1 \<le> j" "j < length text" "text ! j = CHR '' ''"
      "take j (lower text) \<in> lower ` set (color_words gen)" for j
      using find_prefix_longest[OF that color_word_dollar_free[OF assms that(4)] found] by auto
    moreover from found have "extract_color (build_indices gen) text = Inr (Some c, strip (drop n text))"
      by (simp add: extract_color_def)
    ultimately show ?thesis using k by auto
  qed
  have none: "extract_color (build_indices gen) text = Inr (None, text)"
    if free: "dollar_free text"
      and nocand: "\<forall>k. 1 \<le> k \<and> k < length text \<and> text ! k = CHR '' '' \<longrightarrow>
         take k (lower text) \<notin> lower ` set (color_words gen)"
    using that by (rule extract_color_no_candidate)
  have exact: "extract_color (build_indices gen) text = Inr (None, text)"
    if word: "lower text \<in> lower ` set (color_words gen)"
      and nocand: "\<forall>k. 1 \<le> k \<and> k < length text \<and> text ! k = CHR '' '' \<longrightarrow>
         take k (lower text) \<notin> lower ` set (color_words gen)"
  proof -
    from color_word_dollar_free[OF assms word] have "dollar_free text"
      by (simp add: dollar_free_lower)
    from none[OF this nocand] show ?thesis .
  qed
  have some: "\<exists>c n. find_prefix ?t text = Inr (Some (c, n))"
    if free: "dollar_free text"
      and cand: "\<exists>k. 1 \<le> k \<and> k < length text \<and> text ! k = CHR '' '' \<and>
         take k (lower text) \<in> lower ` set (color_words gen)"
  proof -
    from find_prefix_total[OF free, of ?t] obtain r where r: "find_prefix ?t text = Inr r"
      by blast
    from cand obtain k where k: "1 \<le> k" "k < length text" "text ! k = CHR '' ''"
      "take k (lower text) \<in> lower ` set (color_words gen)" by blast
    from find_prefix_longest[OF k color_word_dollar_free[OF assms k(4)] r] r
    show ?thesis by auto
  qed
  have err: "e = TypeError \<and> \<not> dollar_free text"
    if "extract_color (build_indices gen) text = Inl e" for e
    using extract_color_raises[OF that] .
  show ?thesis
  proof (intro conjI allI impI)
    fix c n assume f: "find_prefix ?t text = Inr (Some (c, n))"
    from first[OF f] show "2 \<le> n" "n \<le> length text" "text ! (n - 1) = CHR '' ''"
      "take (n - 1) (lower text) \<in> lower ` set (color_words gen)"
      "extract_color (build_indices gen) text = Inr (Some c, strip (drop n text))"
      by blast+
    fix k assume "1 \<le> k \<and> k < length text \<and> text ! k = CHR '' '' \<and>
           take k (lower text) \<in> lower ` set (color_words gen)"
    with first[OF f] show "k < n" by blast
  next
    assume "lower text \<in> lower ` set (color_words gen) \<and>
      (\<forall>k. 1 \<le> k \<and> k < length text \<and> text ! k = CHR '' '' \<longrightarrow>
         take k (lower text) \<notin> lower ` set (color_words gen))"
    then show "extract_color (build_indices gen) text = Inr (None, text)"
      using exact by blast
  next
    assume "dollar_free text \<and>
      (\<forall>k. 1 \<le> k \<and> k < length text \<and> text ! k = CHR '' '' \<longrightarrow>
         take k (lower text) \<notin> lower ` set (color_words gen))"
    then show "extract_color (build_indices gen) text = Inr (None, text)"
      using none by blast
  next
    assume "dollar_free text \<and>
      (\<exists>k. 1 \<le> k \<and> k < length text \<and> text ! k = CHR '' '' \<and>
         take k (lower text) \<in> lower ` set (color_words gen))"
    then show "\<exists>c n. find_prefix ?t text = Inr (Some (c, n))"
      using some by blast
  next
    fix e assume "extract_color (build_indices gen) text = Inl e"
    from err[OF this] show "e = TypeError" "\<not> dollar_free text" by blast+
  qed
qed

theorem color_prefix_witness:
  "list_all dollar_free (color_words gen_scenario) \<and>
   ''red'' \<in> lower ` set (color_words gen_scenario) \<and>
   extract_color (build_indices gen_scenario) ''red'' = Inr (None, ''red'') \<and>
   find_prefix (color_trie (build_indices gen_scenario)) ''red dress'' = Inr (Some (''red'', 4)) \<and>
   ''red dress'' ! (4 - 1) = CHR '' '' \<and>
   extract_color (build_indices gen_scenario) ''red dress'' = Inr (Some ''red'', ''dress'') \<and>
   extract_color (build_indices gen_scenario) ''red$e'' = Inl TypeError \<and>
   \<not> dollar_free ''red$e''"
proof -
  have words: "list_all dollar_free (color_words gen_scenario)"
    by code_simp
  have b: "''red'' \<in> lower ` set (color_words gen_scenario)"
    by code_simp
  have low: "lower ''red'' = ''red''"
    by code_simp
  have "list_all (\<lambda>c. c \<noteq> CHR '' '') ''red''" by simp
  then have "\<forall>k. 1 \<le> k \<and> k < length ''red'' \<and> ''red'' ! k = CHR '' '' \<longrightarrow>
         take k (lower ''red'') \<notin> lower ` set (color_words gen_scenario)"
    unfolding list_all_length by blast
  with color_prefix_needs_space[OF words, of "''red''"] b low
  have a: "extract_color (build_indices gen_scenario) ''red'' = Inr (None, ''red'')"
    by simp
  have c: "find_prefix (color_trie (build_indices gen_scenario)) ''red dress'' = Inr (Some (''red'', 4))"
    by code_simp
  have st: "strip (drop 4 ''red dress'') = ''dress''"
    by code_simp
  from color_prefix_needs_space[OF words, of "''red dress''"] c
  have d: "''red dress'' ! (4 - 1) = CHR '' '' \<and>
      extract_color (build_indices gen_scenario) ''red dress''
        = Inr (Some ''red'', strip (drop 4 ''red dress''))"
    by blast
  have e: "extract_color (build_indices gen_scenario) ''red$e'' = Inl TypeError"
    by code_simp
  from color_prefix_needs_space[OF words, of "''red$e''"] e
  have f: "\<not> dollar_free ''red$e''" by blast
  from words a b c d e f st show ?thesis by simp
qed

text \<open>
  The claim as stated fails for a text that is a colour surface form and begins with a
  shorter one followed by a space: the shorter colour is extracted.
\<close>

theorem color_prefix_counterexample:
  "''dark red'' \<in> lower ` set (color_words gen_dark) \<and>
   trie_lookup (color_trie (build_indices gen_dark)) (lower ''dark red'') = Some ''dark red'' \<and>
   extract_color (build_indices gen_dark) ''dark red'' = Inr (Some ''dark'', ''red'')"
  by code_simp
section \<open>Tokenizer\<close>

lemma rfind_loop_absent: "c \<notin> set b \<Longrightarrow> rfind_loop c b i found = found"
  by (induction b arbitrary: i found) auto

lemma rfind_loop_last:
  "c \<notin> set b \<Longrightarrow> rfind_loop c (a @ c # b) i found = int (i + length a)"
  by (induction a arbitrary: i found) (auto simp: rfind_loop_absent)

lemma rfind_last: "c \<notin> set b \<Longrightarrow> rfind c (a @ c # b) = int (length a)"
  by (simp add: rfind_def rfind_loop_last)

lemma split_on_nonempty: "split_on sep s \<noteq> []"
  by (induction s) (auto split: list.splits)

lemma join_split_on: "join [sep] (split_on sep s) = s"
proof (induction s)
  case Nil
  then show ?case by simp
next
  case (Cons c s)
  obtain p ps where ps: "split_on sep s = p # ps"
    using split_on_nonempty[of sep s] by (cases "split_on sep s") auto
  with Cons show ?case by (cases ps) auto
qed

lemma split_on_no_sep: "p \<in> set (split_on sep s) \<Longrightarrow> sep \<notin> set p"
proof (induction s arbitrary: p)
  case Nil
  then show ?case by simp
next
  case (Cons c s)
  then show ?case by (auto split: if_splits list.splits)
qed

lemma weighted_part:
  assumes q: "strip p = ''('' @ t @ '':'' @ ws @ '')''" and t: "t \<noteq> []"
    and ws: "CHR '':'' \<notin> set ws"
  shows "tokenize_part rt p =
           (case py_float rt ws of Some x \<Rightarrow> Some (t, x) | None \<Rightarrow> Some (strip p, 1))"
proof -
  have inner: "butlast (tl (strip p)) = t @ CHR '':'' # ws"
    by (simp add: q butlast_append)
  have colon: "rfind CHR '':'' (t @ CHR '':'' # ws) = int (length t)"
    using ws by (rule rfind_last)
  have guard: "startswith (strip p) ''('' \<and> endswith (strip p) '')'' \<and> CHR '':'' \<in> set (strip p)"
    by (simp add: q startswith_def endswith_def)
  from t have pos: "0 < int (length t)" by simp
  show ?thesis
    unfolding tokenize_part_def Let_def inner colon
    using guard pos q by (simp split: option.splits)
qed

lemma endswith_last: "endswith q [c] \<Longrightarrow> q \<noteq> [] \<and> last q = c"
proof -
  assume e: "endswith q [c]"
  then have ne: "q \<noteq> []" by (auto simp: endswith_def)
  then have "drop (length q - 1) q = drop (length (butlast q)) (butlast q @ [last q])"
    by simp
  also have "\<dots> = [last q]" by simp
  finally show ?thesis using e ne by (simp add: endswith_def)
qed

lemma parenthesised:
  assumes "startswith q ''(''" "endswith q '')''" "CHR '':'' \<in> set q"
  shows "q = ''('' @ butlast (tl q) @ '')'' \<and> CHR '':'' \<in> set (butlast (tl q))"
proof -
  from assms(1) obtain r where r: "q = CHR ''('' # r"
    by (cases q) (auto simp: startswith_def)
  with assms(3) have ne: "r \<noteq> []" by auto
  from endswith_last[OF assms(2)] r ne have "last r = CHR '')''" by simp
  with ne have split: "r = butlast r @ '')''"
    using append_butlast_last_id[of r] by simp
  from assms(3) r have "CHR '':'' \<in> set r" by simp
  then have "CHR '':'' \<in> set (butlast r @ '')'')" using split by simp
  then have "CHR '':'' \<in> set (butlast r)" by simp
  with r split show ?thesis by simp
qed

lemma plain_part:
  assumes ne: "strip p \<noteq> []"
    and no: "\<not> (\<exists>t ws. strip p = ''('' @ t @ '':'' @ ws @ '')'' \<and> t \<noteq> [] \<and> CHR '':'' \<notin> set ws)"
  shows "tokenize_part rt p = Some (strip p, 1)"
proof (cases "startswith (strip p) ''('' \<and> endswith (strip p) '')'' \<and> CHR '':'' \<in> set (strip p)")
  case False
  with ne show ?thesis by (auto simp: tokenize_part_def Let_def)
next
  case True
  with parenthesised[of "strip p"] have form: "strip p = ''('' @ butlast (tl (strip p)) @ '')''"
    and colon: "CHR '':'' \<in> set (butlast (tl (strip p)))" by simp_all
  from split_list_last[OF colon] obtain t ws where
    inner: "butlast (tl (strip p)) = t @ CHR '':'' # ws" and ws: "CHR '':'' \<notin> set ws"
    by blast
  from form inner have "strip p = ''('' @ t @ '':'' @ ws @ '')''" by simp
  with no ws have "t = []" by blast
  with inner ws have "rfind CHR '':'' (butlast (tl (strip p))) = 0"
    using rfind_last[of "CHR '':''" ws "[]"] by simp
  with ne show ?thesis by (simp add: tokenize_part_def Let_def)
qed

lemma blank_part: "strip p = [] \<Longrightarrow> tokenize_part rt p = None"
  by (simp add: tokenize_part_def)

text \<open>
  Claim C8, as amended. Tokenization splits the prompt on commas. A part that is empty
  after stripping its surrounding whitespace yields no token. A part that, stripped, reads
  \<open>(text:weight)\<close> with a non-empty text and a weight suffix without a colon yields the
  bare text and the weight as a float when \<open>float\<close> accepts the suffix. Every other part
  yields the stripped part itself with weight 1.0, parentheses included when the suffix
  is malformed. Whitespace inside the token text is kept as it is.
\<close>

theorem tokenize_parts:
  "tokenize rt prompt =
     concat (map (\<lambda>p. case tokenize_part rt p of None \<Rightarrow> [] | Some t \<Rightarrow> [t])
               (split_on CHR '','' prompt)) \<and>
   join '','' (split_on CHR '','' prompt) = prompt \<and>
   (\<forall>p \<in> set (split_on CHR '','' prompt). CHR '','' \<notin> set p) \<and>
   (\<forall>p. (strip p = [] \<longrightarrow> tokenize_part rt p = None) \<and>
        (\<forall>t ws. strip p = ''('' @ t @ '':'' @ ws @ '')'' \<and> t \<noteq> [] \<and> CHR '':'' \<notin> set ws \<longrightarrow>
           tokenize_part rt p =
             (case py_float rt ws of Some x \<Rightarrow> Some (t, x) | None \<Rightarrow> Some (strip p, 1))) \<and>
        (strip p \<noteq> [] \<and>
         \<not> (\<exists>t ws. strip p = ''('' @ t @ '':'' @ ws @ '')'' \<and> t \<noteq> [] \<and> CHR '':'' \<notin> set ws) \<longrightarrow>
           tokenize_part rt p = Some (strip p, 1)))"
  using join_split_on[of "CHR '',''" prompt] split_on_no_sep[of _ "CHR '',''" prompt]
    weighted_part[of _ _ _ rt] plain_part[of _ rt] blank_part[of _ rt]
  by (simp add: tokenize_def)

theorem tokenize_parts_witness:
  "tokenize_part example_runtime '' (long  hair:1.3)'' = Some (''long  hair'', 13 / 10) \<and>
   tokenize_part example_runtime '' (x:abc) '' = Some (''(x:abc)'', 1) \<and>
   tokenize_part example_runtime '' blue eyes'' = Some (''blue eyes'', 1) \<and>
   tokenize_part example_runtime ''  '' = None \<and>
   CHR '','' \<notin> set '' blue eyes'' \<and>
   tokenize example_runtime ''1girl, (long  hair:1.3),, (x:abc) , blue eyes''
     = [(''1girl'', 1), (''long  hair'', 13 / 10), (''(x:abc)'', 1), (''blue eyes'', 1)]"
proof -
  note T = tokenize_parts[of example_runtime "''1girl, (long  hair:1.3),, (x:abc) , blue eyes''"]
  have s1: "strip '' (long  hair:1.3)'' = ''('' @ ''long  hair'' @ '':'' @ ''1.3'' @ '')''"
    by code_simp
  have f1: "py_float example_runtime ''1.3'' = Some (13 / 10)"
    by code_simp
  from T s1 have "tokenize_part example_runtime '' (long  hair:1.3)'' =
      (case py_float example_runtime ''1.3'' of
         Some x \<Rightarrow> Some (''long  hair'', x)
       | None \<Rightarrow> Some (strip '' (long  hair:1.3)'', 1))"
    by simp
  with f1 have a: "tokenize_part example_runtime '' (long  hair:1.3)'' = Some (''long  hair'', 13 / 10)"
    by simp
  have b: "tokenize_part example_runtime '' (x:abc) '' = Some (''(x:abc)'', 1)"
    by code_simp
  have c: "tokenize_part example_runtime '' blue eyes'' = Some (''blue eyes'', 1)"
    by code_simp
  have s4: "strip ''  '' = []" by code_simp
  with T have d: "tokenize_part example_runtime ''  '' = None" by blast
  have e: "'' blue eyes'' \<in> set (split_on CHR '','' ''1girl, (long  hair:1.3),, (x:abc) , blue eyes'')"
    by code_simp
  with T have e': "CHR '','' \<notin> set '' blue eyes''" by blast
  have f: "tokenize example_runtime ''1girl, (long  hair:1.3),, (x:abc) , blue eyes''
     = [(''1girl'', 1), (''long  hair'', 13 / 10), (''(x:abc)'', 1), (''blue eyes'', 1)]"
    by code_simp
  from a b c d e' f show ?thesis by blast
qed

text \<open>
  The claim as stated fails on a token with a run of spaces inside: the tokenizer keeps
  the run, collapsing would leave one space.
\<close>

theorem tokenize_collapse_counterexample:
  "map fst (tokenize example_runtime ''long   hair'') = [''long   hair''] \<and>
   spec_collapse_whitespace ''long   hair'' = ''long hair''"
  by code_simp

section \<open>Parse totals and overall confidence\<close>

lemma parse_token_skip:
  "\<not> considered token \<Longrightarrow> parse_token rt idx use_fuzzy token st = Inr st"
  by (cases token) (simp add: parse_token_def considered_def)

lemma parse_token_counts:
  "considered token \<Longrightarrow> parse_token rt idx use_fuzzy token st = Inr st' \<Longrightarrow>
   st_matched_count st' + length (st_unmatched st')
   = Suc (st_matched_count st + length (st_unmatched st))"
  by (cases token)
     (auto simp: parse_token_def considered_def split: prod.splits option.splits sum.splits)

lemma parse_token_unmatched:
  "parse_token rt idx use_fuzzy token st = Inr st' \<Longrightarrow>
   set (st_unmatched st')
     \<subseteq> set (st_unmatched st) \<union> (if considered token then {fst token} else {})"
  by (cases token)
     (auto simp: parse_token_def considered_def
           split: prod.splits option.splits sum.splits if_splits)

lemma parse_token_total:
  "dollar_free (fst token) \<Longrightarrow> \<exists>st'. parse_token rt idx use_fuzzy token st = Inr st'"
proof -
  assume "dollar_free (fst token)"
  from extract_color_total[OF this, of idx] obtain r where
    "extract_color idx (fst token) = Inr r" by blast
  then show ?thesis
    by (cases token) (auto simp: parse_token_def split: prod.splits)
qed

lemma parse_token_raises:
  "parse_token rt idx use_fuzzy token st = Inl e \<Longrightarrow> e = TypeError"
  by (cases token)
     (auto simp: parse_token_def split: prod.splits sum.splits if_splits
           dest: extract_color_raises)

lemma parse_loop_filter:
  "parse_loop rt idx use_fuzzy tokens st
   = parse_loop rt idx use_fuzzy (filter considered tokens) st"
  by (induction tokens arbitrary: st) (simp_all add: parse_token_skip cong: sum.case_cong)

lemma parse_loop_counts:
  "parse_loop rt idx use_fuzzy tokens st = Inr st' \<Longrightarrow>
   st_matched_count st' + length (st_unmatched st')
   = st_matched_count st + length (st_unmatched st) + length (filter considered tokens)"
proof (induction tokens arbitrary: st)
  case Nil
  then show ?case by simp
next
  case (Cons token tokens)
  from Cons.prems obtain st1 where
    one: "parse_token rt idx use_fuzzy token st = Inr st1"
    and rest: "parse_loop rt idx use_fuzzy tokens st1 = Inr st'"
    by (auto split: sum.splits)
  show ?case
  proof (cases "considered token")
    case True
    from parse_token_counts[OF True one] Cons.IH[OF rest] True show ?thesis by simp
  next
    case False
    from parse_token_skip[OF False, of rt idx use_fuzzy st] one have "st1 = st" by simp
    with Cons.IH[OF rest] False show ?thesis by simp
  qed
qed

lemma parse_loop_unmatched:
  "parse_loop rt idx use_fuzzy tokens st = Inr st' \<Longrightarrow>
   set (st_unmatched st') \<subseteq> set (st_unmatched st) \<union> fst ` set (filter considered tokens)"
proof (induction tokens arbitrary: st)
  case Nil
  then show ?case by simp
next
  case (Cons token tokens)
  from Cons.prems obtain st1 where
    one: "parse_token rt idx use_fuzzy token st = Inr st1"
    and rest: "parse_loop rt idx use_fuzzy tokens st1 = Inr st'"
    by (auto split: sum.splits)
  from Cons.IH[OF rest] parse_token_unmatched[OF one]
  show ?case by (auto split: if_splits)
qed

lemma parse_loop_total:
  "list_all (\<lambda>token. dollar_free (fst token)) tokens \<Longrightarrow>
   \<exists>st'. parse_loop rt idx use_fuzzy tokens st = Inr st'"
proof (induction tokens arbitrary: st)
  case Nil
  then show ?case by simp
next
  case (Cons token tokens)
  then have "dollar_free (fst token)" by simp
  from parse_token_total[OF this, of rt idx use_fuzzy st] obtain st1 where
    "parse_token rt idx use_fuzzy token st = Inr st1" by blast
  moreover from Cons.prems have "list_all (\<lambda>token. dollar_free (fst token)) tokens" by simp
  from Cons.IH[OF this, of st1] obtain st' where
    "parse_loop rt idx use_fuzzy tokens st1 = Inr st'" by blast
  ultimately show ?case by simp
qed

lemma parse_loop_raises:
  "parse_loop rt idx use_fuzzy tokens st = Inl e \<Longrightarrow> e = TypeError"
proof (induction tokens arbitrary: st)
  case Nil
  then show ?case by simp
next
  case (Cons token tokens)
  show ?case
  proof (cases "parse_token rt idx use_fuzzy token st")
    case (Inl e')
    with Cons.prems have "e' = e" by simp
    with Inl parse_token_raises show ?thesis by blast
  next
    case (Inr st1)
    with Cons.prems have "parse_loop rt idx use_fuzzy tokens st1 = Inl e" by simp
    from Cons.IH[OF this] show ?thesis .
  qed
qed

text \<open>The characters of a token text are characters of the prompt.\<close>

lemma set_strip: "set (strip s) \<subseteq> set s"
proof -
  have "set (strip s) \<subseteq> set (rev (dropWhile is_space s))"
    unfolding strip_def set_rev by (auto dest: set_dropWhileD)
  also have "\<dots> \<subseteq> set s" by (auto dest: set_dropWhileD)
  finally show ?thesis .
qed

lemma set_split_on: "p \<in> set (split_on sep s) \<Longrightarrow> set p \<subseteq> set s"
proof (induction s arbitrary: p)
  case Nil
  then show ?case by simp
next
  case (Cons c cs)
  note IH = Cons.IH and prems = Cons.prems
  show ?case
  proof (cases "c = sep")
    case True
    with prems have "p = [] \<or> p \<in> set (split_on sep cs)" by simp
    with IH show ?thesis by auto
  next
    case False
    show ?thesis
    proof (cases "split_on sep cs")
      case Nil
      with prems False show ?thesis by simp
    next
      case (Cons q qs)
      with prems False have "p = c # q \<or> p \<in> set qs" by simp
      moreover from Cons have "q \<in> set (split_on sep cs)" "set qs \<subseteq> set (split_on sep cs)"
        by auto
      moreover from IH[of q] \<open>q \<in> set (split_on sep cs)\<close> have "set q \<subseteq> set cs" by simp
      ultimately show ?thesis using IH[of p] by auto
    qed
  qed
qed

lemma tokenize_part_chars:
  "tokenize_part rt part = Some (t, w) \<Longrightarrow> set t \<subseteq> set part"
proof -
  assume a: "tokenize_part rt part = Some (t, w)"
  have inner: "set (take n (butlast (tl (strip part)))) \<subseteq> set part" for n
  proof -
    have "set (take n (butlast (tl (strip part)))) \<subseteq> set (butlast (tl (strip part)))"
      by (rule set_take_subset)
    also have "\<dots> \<subseteq> set (tl (strip part))"
      by (auto dest: in_set_butlastD)
    also have "\<dots> \<subseteq> set (strip part)"
      by (cases "strip part") auto
    also have "\<dots> \<subseteq> set part" by (rule set_strip)
    finally show ?thesis .
  qed
  from a have "t = strip part \<or> (\<exists>n. t = take n (butlast (tl (strip part))))"
    by (auto simp: tokenize_part_def Let_def split: if_splits option.splits)
  with inner set_strip[of part] show ?thesis by auto
qed

lemma tokenize_chars: "token \<in> set (tokenize rt prompt) \<Longrightarrow> set (fst token) \<subseteq> set prompt"
proof -
  assume "token \<in> set (tokenize rt prompt)"
  then obtain part where part: "part \<in> set (split_on CHR '','' prompt)"
    and tok: "tokenize_part rt part = Some token"
    by (auto simp: tokenize_def split: option.splits)
  obtain t w where "token = (t, w)" by (cases token)
  with tok tokenize_part_chars[of rt part t w] have "set (fst token) \<subseteq> set part" by simp
  with set_split_on[OF part] show ?thesis by blast
qed

lemma tokenize_dollar_free:
  "dollar_free prompt \<Longrightarrow> list_all (\<lambda>token. dollar_free (fst token)) (tokenize rt prompt)"
  unfolding list_all_iff dollar_free_def using tokenize_chars[of _ rt prompt] by blast

text \<open>
  Claim C7. A parse that returns a result has as its total the number of tokens that are
  not in the skip list; each of them is either counted as matched or listed as unmatched.
  The overall confidence is the matched count divided by that total, rounded by
  \<open>round(x, 3)\<close>, and 0 when no token is left after skipping. Skip-list tokens change
  nothing: parsing all tokens and parsing the tokens without them end alike, and every
  unmatched text is the text of a token that was not skipped. The parse of a prompt
  without the character \<open>$\<close> returns a result; a parse that does not return a result
  has raised \<open>TypeError\<close> in the colour trie, on a prompt that holds \<open>$\<close>.
\<close>

theorem overall_confidence:
  "(\<forall>r. parse rt idx prompt use_fuzzy = Inr r \<longrightarrow>
      res_total_tokens r = length (filter considered (tokenize rt prompt)) \<and>
      res_matched_count r + length (res_unmatched r)
        = length (filter considered (tokenize rt prompt)) \<and>
      res_overall_confidence r
        = (if filter considered (tokenize rt prompt) = [] then 0
           else py_round3 rt (of_nat (res_matched_count r)
                              / of_nat (length (filter considered (tokenize rt prompt))))) \<and>
      set (res_unmatched r) \<subseteq> fst ` set (filter considered (tokenize rt prompt))) \<and>
   parse_tokens rt idx use_fuzzy (tokenize rt prompt)
     = parse_tokens rt idx use_fuzzy (filter considered (tokenize rt prompt)) \<and>
   (dollar_free prompt \<longrightarrow> (\<exists>r. parse rt idx prompt use_fuzzy = Inr r)) \<and>
   (\<forall>e. parse rt idx prompt use_fuzzy = Inl e \<longrightarrow> e = TypeError \<and> \<not> dollar_free prompt)"
proof -
  let ?init = "\<lparr>st_results = Map.empty, st_unmatched = [], st_matched_count = 0\<rparr>"
  let ?n = "length (filter considered (tokenize rt prompt))"
  have returned: "res_total_tokens r = ?n \<and>
      res_matched_count r + length (res_unmatched r) = ?n \<and>
      res_overall_confidence r
        = (if filter considered (tokenize rt prompt) = [] then 0
           else py_round3 rt (of_nat (res_matched_count r) / of_nat ?n)) \<and>
      set (res_unmatched r) \<subseteq> fst ` set (filter considered (tokenize rt prompt))"
    if r: "parse rt idx prompt use_fuzzy = Inr r" for r
  proof -
    from r obtain st where st: "parse_loop rt idx use_fuzzy (tokenize rt prompt) ?init = Inr st"
      and fields: "res_total_tokens r = st_matched_count st + length (st_unmatched st)"
        "res_matched_count r = st_matched_count st"
        "res_unmatched r = st_unmatched st"
        "res_overall_confidence r
          = (if 0 < st_matched_count st + length (st_unmatched st)
             then py_round3 rt (of_nat (st_matched_count st)
                    / of_nat (st_matched_count st + length (st_unmatched st)))
             else 0)"
      by (auto simp: parse_def parse_tokens_def Let_def split: sum.splits)
    from parse_loop_counts[OF st]
    have total: "st_matched_count st + length (st_unmatched st) = ?n" by simp
    from parse_loop_unmatched[OF st]
    have sub: "set (st_unmatched st) \<subseteq> fst ` set (filter considered (tokenize rt prompt))"
      by simp
    from total sub show ?thesis unfolding fields total by simp
  qed
  have skip: "parse_tokens rt idx use_fuzzy (tokenize rt prompt)
      = parse_tokens rt idx use_fuzzy (filter considered (tokenize rt prompt))"
    unfolding parse_tokens_def by (rule parse_loop_filter)
  have total: "\<exists>r. parse rt idx prompt use_fuzzy = Inr r" if "dollar_free prompt"
  proof -
    from parse_loop_total[OF tokenize_dollar_free[OF that], of rt idx use_fuzzy rt ?init]
    obtain st where "parse_loop rt idx use_fuzzy (tokenize rt prompt) ?init = Inr st"
      by blast
    then show ?thesis by (simp add: parse_def parse_tokens_def Let_def)
  qed
  have raised: "e = TypeError \<and> \<not> dollar_free prompt"
    if e: "parse rt idx prompt use_fuzzy = Inl e" for e
  proof
    from e have "parse_loop rt idx use_fuzzy (tokenize rt prompt) ?init = Inl e"
      by (auto simp: parse_def parse_tokens_def Let_def split: sum.splits)
    then show "e = TypeError" by (rule parse_loop_raises)
    show "\<not> dollar_free prompt"
    proof
      assume "dollar_free prompt"
      from total[OF this] e show False by auto
    qed
  qed
  show ?thesis
  proof (intro conjI allI impI)
    fix r assume r: "parse rt idx prompt use_fuzzy = Inr r"
    from returned[OF r] show "res_total_tokens r = ?n"
      "res_matched_count r + length (res_unmatched r) = ?n"
      "res_overall_confidence r
        = (if filter considered (tokenize rt prompt) = [] then 0
           else py_round3 rt (of_nat (res_matched_count r) / of_nat ?n))"
      "set (res_unmatched r) \<subseteq> fst ` set (filter considered (tokenize rt prompt))"
      by blast+
  next
    show "parse_tokens rt idx use_fuzzy (tokenize rt prompt)
      = parse_tokens rt idx use_fuzzy (filter considered (tokenize rt prompt))"
      by (rule skip)
  next
    assume "dollar_free prompt"
    then show "\<exists>r. parse rt idx prompt use_fuzzy = Inr r" by (rule total)
  next
    fix e assume e: "parse rt idx prompt use_fuzzy = Inl e"
    from raised[OF e] show "e = TypeError" "\<not> dollar_free prompt" by blast+
  qed
qed

theorem overall_confidence_witness:
  "map_sum id res_overall_confidence
     (parse example_runtime (build_indices gen_scenario)
        ''1girl, red dress, blue eyes, xyzzy_unknown_tag, (dres:1.5), blue-eyes'' True)
     = Inr (2 / 5) \<and>
   map_sum id res_total_tokens
     (parse example_runtime (build_indices gen_scenario)
        ''1girl, red dress, blue eyes, xyzzy_unknown_tag, (dres:1.5), blue-eyes'' True)
     = Inr 5 \<and>
   map_sum id res_overall_confidence
     (parse example_runtime (build_indices gen_scenario) ''1girl, solo'' True) = Inr 0 \<and>
   map_sum id res_total_tokens
     (parse example_runtime (build_indices gen_scenario) ''1girl, red$e'' True) = Inl TypeError \<and>
   \<not> dollar_free ''1girl, red$e''"
proof -
  let ?p = "''1girl, red dress, blue eyes, xyzzy_unknown_tag, (dres:1.5), blue-eyes''"
  note T = overall_confidence[of example_runtime "build_indices gen_scenario" ?p True]
  note U = overall_confidence[of example_runtime "build_indices gen_scenario" "''1girl, solo''" True]
  note V = overall_confidence[of example_runtime "build_indices gen_scenario" "''1girl, red$e''" True]
  have fp: "dollar_free ?p" by (simp add: dollar_free_def)
  have fq: "dollar_free ''1girl, solo''" by (simp add: dollar_free_def)
  from T fp obtain r where r: "parse example_runtime (build_indices gen_scenario) ?p True = Inr r"
    by blast
  from U fq obtain q where
    q: "parse example_runtime (build_indices gen_scenario) ''1girl, solo'' True = Inr q"
    by blast
  have n: "length (filter considered (tokenize example_runtime ?p)) = 5"
    by code_simp
  have "map_sum id res_matched_count (parse example_runtime (build_indices gen_scenario) ?p True)
      = Inr 2"
    by code_simp
  with r have m: "res_matched_count r = 2" by simp
  have rd: "py_round3 example_runtime (2 / 5) = 2 / 5"
    by code_simp
  have z: "filter considered (tokenize example_runtime ''1girl, solo'') = []"
    by code_simp
  from n have ne: "filter considered (tokenize example_runtime ?p) \<noteq> []" by auto
  from T r ne n m rd have a: "res_overall_confidence r = 2 / 5"
    by simp
  from T r n have b: "res_total_tokens r = 5"
    by simp
  from U q z have c: "res_overall_confidence q = 0"
    by simp
  have raised: "map_sum id res_total_tokens
      (parse example_runtime (build_indices gen_scenario) ''1girl, red$e'' True) = Inl TypeError"
    by code_simp
  then obtain e where
    e: "parse example_runtime (build_indices gen_scenario) ''1girl, red$e'' True = Inl e"
    by (cases "parse example_runtime (build_indices gen_scenario) ''1girl, red$e'' True") auto
  with V have d: "\<not> dollar_free ''1girl, red$e''" by blast
  from a b c d raised r q show ?thesis by simp
qed
section \<open>The matching cascade\<close>

text \<open>
  The loop of \<open>_match_fuzzy\<close>: the best score never falls, a new best comes from an entry
  of the exact index whose score meets the threshold, and in the end no entry that meets
  the threshold scores above the best.
\<close>

lemma fuzzy_fold:
  "fold (fuzzy_step rt txl th) es (bm0, bs0) = (bm, bs) \<Longrightarrow>
     bs0 \<le> bs \<and>
     ((bm, bs) = (bm0, bs0) \<or>
      (\<exists>name ms. (name, ms) \<in> set es \<and> bm = Some ms \<and> bs = seq_ratio rt txl name \<and> th \<le> bs)) \<and>
     (\<forall>(name, ms) \<in> set es. th \<le> seq_ratio rt txl name \<longrightarrow> seq_ratio rt txl name \<le> bs)"
proof (induction es arbitrary: bm0 bs0)
  case Nil
  then show ?case by simp
next
  case (Cons e es)
  obtain name ms where e: "e = (name, ms)" by (cases e)
  define st where "st = fuzzy_step rt txl th e (bm0, bs0)"
  obtain bm1 bs1 where st1: "st = (bm1, bs1)" by (cases st)
  from Cons.prems have run: "fold (fuzzy_step rt txl th) es (bm1, bs1) = (bm, bs)"
    by (simp add: st_def[symmetric] st1)
  note IH = Cons.IH[OF run]
  have step: "bs0 \<le> bs1 \<and>
      ((bm1, bs1) = (bm0, bs0) \<or> bm1 = Some ms \<and> bs1 = seq_ratio rt txl name \<and> th \<le> bs1) \<and>
      (th \<le> seq_ratio rt txl name \<longrightarrow> seq_ratio rt txl name \<le> bs1)"
    using st1 unfolding st_def e fuzzy_step_def Let_def by (auto split: if_splits)
  from IH step show ?case
    unfolding e by (auto; force)
qed

lemma match_fuzzy_some:
  assumes "match_fuzzy rt idx t th = Some (ms, score)" "0 < th"
  shows "ms \<noteq> [] \<and> th \<le> score \<and>
         (\<exists>name. (name, ms) \<in> set (exact_index idx) \<and> score = seq_ratio rt (lower t) name) \<and>
         (\<forall>(name, ms') \<in> set (exact_index idx). seq_ratio rt (lower t) name \<le> score)"
proof -
  obtain bm bs where f: "fold (fuzzy_step rt (lower t) th) (exact_index idx) (None, 0) = (bm, bs)"
    by (cases "fold (fuzzy_step rt (lower t) th) (exact_index idx) (None, 0)")
  with assms(1) have bm: "bm = Some ms" "ms \<noteq> []" "bs = score"
    by (auto simp: match_fuzzy_def split: option.splits if_splits)
  from fuzzy_fold[OF f] bm have
    src: "\<exists>name. (name, ms) \<in> set (exact_index idx) \<and> score = seq_ratio rt (lower t) name \<and> th \<le> score"
    and best: "\<forall>(name, ms') \<in> set (exact_index idx).
                 th \<le> seq_ratio rt (lower t) name \<longrightarrow> seq_ratio rt (lower t) name \<le> score"
    by auto
  from src have th: "th \<le> score" by blast
  have "seq_ratio rt (lower t) name \<le> score" if "(name, ms') \<in> set (exact_index idx)" for name ms'
  proof (cases "th \<le> seq_ratio rt (lower t) name")
    case True
    with best that show ?thesis by blast
  next
    case False
    with th show ?thesis by simp
  qed
  with src bm th show ?thesis by blast
qed

text \<open>
  Claim C5. For the colour-stripped text of a token, the cascade takes the exact match with
  confidence 1.0 when it is non-empty, else the normalized match with 0.95, else the
  word-intersection match with 0.85. Only when all three are empty, fuzzy matching is
  enabled and the text is longer than three characters is the fuzzy match tried; its
  candidates and its ratio become the match and the confidence. The fuzzy match returns
  the candidates of an exact-index key whose similarity ratio to the lowered text is at
  least 0.85 and is the greatest over all keys.
\<close>

theorem matching_cascade:
  "(nonempty (match_exact idx t) \<longrightarrow> cascade rt idx use_fuzzy t = (match_exact idx t, 1)) \<and>
   (\<not> nonempty (match_exact idx t) \<and> nonempty (match_normalized idx t) \<longrightarrow>
      cascade rt idx use_fuzzy t = (match_normalized idx t, 95 / 100)) \<and>
   (\<not> nonempty (match_exact idx t) \<and> \<not> nonempty (match_normalized idx t) \<and>
    nonempty (match_words rt idx t) \<longrightarrow>
      cascade rt idx use_fuzzy t = (match_words rt idx t, 85 / 100)) \<and>
   (\<not> nonempty (match_exact idx t) \<and> \<not> nonempty (match_normalized idx t) \<and>
    \<not> nonempty (match_words rt idx t) \<longrightarrow>
      (if use_fuzzy \<and> 3 < length t
       then (case match_fuzzy rt idx t (85 / 100) of
               Some (ms, score) \<Rightarrow> cascade rt idx use_fuzzy t = (Some ms, score)
             | None \<Rightarrow> \<not> nonempty (fst (cascade rt idx use_fuzzy t)))
       else \<not> nonempty (fst (cascade rt idx use_fuzzy t)))) \<and>
   (\<forall>ms score. match_fuzzy rt idx t (85 / 100) = Some (ms, score) \<longrightarrow>
      ms \<noteq> [] \<and> 85 / 100 \<le> score \<and>
      (\<exists>name. (name, ms) \<in> set (exact_index idx) \<and> score = seq_ratio rt (lower t) name) \<and>
      (\<forall>(name, ms') \<in> set (exact_index idx). seq_ratio rt (lower t) name \<le> score))"
proof -
  have fz: "\<forall>ms score. match_fuzzy rt idx t (85 / 100) = Some (ms, score) \<longrightarrow>
      ms \<noteq> [] \<and> 85 / 100 \<le> score \<and>
      (\<exists>name. (name, ms) \<in> set (exact_index idx) \<and> score = seq_ratio rt (lower t) name) \<and>
      (\<forall>(name, ms') \<in> set (exact_index idx). seq_ratio rt (lower t) name \<le> score)"
    using match_fuzzy_some[of rt idx t "85 / 100"] by simp
  have c1: "nonempty (match_exact idx t) \<longrightarrow> cascade rt idx use_fuzzy t = (match_exact idx t, 1)"
    by (simp add: cascade_def Let_def)
  have c2: "\<not> nonempty (match_exact idx t) \<and> nonempty (match_normalized idx t) \<longrightarrow>
      cascade rt idx use_fuzzy t = (match_normalized idx t, 95 / 100)"
    by (simp add: cascade_def Let_def)
  have c3: "\<not> nonempty (match_exact idx t) \<and> \<not> nonempty (match_normalized idx t) \<and>
    nonempty (match_words rt idx t) \<longrightarrow>
      cascade rt idx use_fuzzy t = (match_words rt idx t, 85 / 100)"
    by (simp add: cascade_def Let_def)
  have c4: "\<not> nonempty (match_exact idx t) \<and> \<not> nonempty (match_normalized idx t) \<and>
    \<not> nonempty (match_words rt idx t) \<longrightarrow>
      (if use_fuzzy \<and> 3 < length t
       then (case match_fuzzy rt idx t (85 / 100) of
               Some (ms, score) \<Rightarrow> cascade rt idx use_fuzzy t = (Some ms, score)
             | None \<Rightarrow> \<not> nonempty (fst (cascade rt idx use_fuzzy t)))
       else \<not> nonempty (fst (cascade rt idx use_fuzzy t)))"
    by (auto simp: cascade_def Let_def split: option.splits)
  from c1 c2 c3 c4 fz show ?thesis by blast
qed

theorem matching_cascade_witness:
  "cascade example_runtime (build_indices gen_scenario) True ''dress''
     = (Some [(''full_body'', ''dress_casual'')], 1) \<and>
   cascade example_runtime (build_indices gen_scenario) True ''blue-eyes''
     = (Some [(''eye_color'', ''eyes_blue'')], 95 / 100) \<and>
   cascade example_runtime (build_indices gen_scenario) True ''eyes blue''
     = (Some [(''eye_color'', ''eyes_blue'')], 85 / 100) \<and>
   cascade example_runtime (build_indices gen_scenario) True ''dres''
     = (Some [(''full_body'', ''dress_casual'')], 8 / 9) \<and>
   \<not> nonempty (fst (cascade example_runtime (build_indices gen_scenario) False ''dres''))"
proof -
  let ?idx = "build_indices gen_scenario"
  let ?rt = example_runtime
  have e1: "match_exact ?idx ''dress'' = Some [(''full_body'', ''dress_casual'')]"
    by code_simp
  have e2: "match_exact ?idx ''blue-eyes'' = None"
    "match_normalized ?idx ''blue-eyes'' = Some [(''eye_color'', ''eyes_blue'')]"
    by code_simp+
  have e3: "match_exact ?idx ''eyes blue'' = None" "match_normalized ?idx ''eyes blue'' = None"
    "match_words ?rt ?idx ''eyes blue'' = Some [(''eye_color'', ''eyes_blue'')]"
    by code_simp+
  have e4: "match_exact ?idx ''dres'' = None" "match_normalized ?idx ''dres'' = None"
    "match_words ?rt ?idx ''dres'' = None"
    "match_fuzzy ?rt ?idx ''dres'' (85 / 100) = Some ([(''full_body'', ''dress_casual'')], 8 / 9)"
    by code_simp+
  from matching_cascade[of ?idx "''dress''" ?rt True] e1
  have a: "cascade ?rt ?idx True ''dress'' = (Some [(''full_body'', ''dress_casual'')], 1)"
    by (simp add: nonempty_def)
  from matching_cascade[of ?idx "''blue-eyes''" ?rt True] e2
  have b: "cascade ?rt ?idx True ''blue-eyes'' = (Some [(''eye_color'', ''eyes_blue'')], 95 / 100)"
    by (simp add: nonempty_def)
  from matching_cascade[of ?idx "''eyes blue''" ?rt True] e3
  have c: "cascade ?rt ?idx True ''eyes blue'' = (Some [(''eye_color'', ''eyes_blue'')], 85 / 100)"
    by (simp add: nonempty_def)
  from matching_cascade[of ?idx "''dres''" ?rt True] e4
  have d: "cascade ?rt ?idx True ''dres'' = (Some [(''full_body'', ''dress_casual'')], 8 / 9)"
    by (simp add: nonempty_def)
  from matching_cascade[of ?idx "''dres''" ?rt False] e4
  have f: "\<not> nonempty (fst (cascade ?rt ?idx False ''dres''))"
    by (simp add: nonempty_def)
  from a b c d f show ?thesis by blast
qed

section \<open>What the built indices hold\<close>

lemma entries_at_append [simp]: "entries_at (es @ fs) k = entries_at es k @ entries_at fs k"
  by (simp add: entries_at_def)

lemma entries_at_Nil [simp]: "entries_at [] k = []"
  by (simp add: entries_at_def)

lemma entries_at_concat: "entries_at (concat ess) k = concat (map (\<lambda>es. entries_at es k) ess)"
  by (induction ess) simp_all

lemma extends_same: "(\<And>idx. sel (f idx) = sel idx) \<Longrightarrow> extends sel f []"
  by (simp add: extends_def)

lemma extends_comp:
  assumes "extends sel f es" "extends sel g fs"
  shows "extends sel (\<lambda>idx. g (f idx)) (es @ fs)"
  unfolding extends_def
proof (intro allI conjI)
  fix idx k
  from assms(1) have f: "map_of (sel (f idx)) k =
      (if entries_at es k = [] then map_of (sel idx) k
       else Some (grouped (sel idx) k @ entries_at es k))"
    by (simp add: extends_def)
  then have gf: "grouped (sel (f idx)) k = grouped (sel idx) k @ entries_at es k"
    by (simp add: grouped_def)
  from assms(2) have "map_of (sel (g (f idx))) k =
      (if entries_at fs k = [] then map_of (sel (f idx)) k
       else Some (grouped (sel (f idx)) k @ entries_at fs k))"
    by (simp add: extends_def)
  with f gf show "map_of (sel (g (f idx))) k =
      (if entries_at (es @ fs) k = [] then map_of (sel idx) k
       else Some (grouped (sel idx) k @ entries_at (es @ fs) k))"
    by simp
  from assms show "distinct (map fst (sel idx)) \<longrightarrow> distinct (map fst (sel (g (f idx))))"
    by (simp add: extends_def)
qed

lemma extends_fold:
  assumes "\<And>x. extends sel (h x) (E x)"
  shows "extends sel (fold h xs) (concat (map E xs))"
proof (induction xs)
  case Nil
  show ?case by (simp add: extends_same)
next
  case (Cons x xs)
  from extends_comp[OF assms[of x] Cons] show ?case
    by (simp add: comp_def)
qed

lemma extends_cong: "extends sel f es \<Longrightarrow> es = fs \<Longrightarrow> extends sel f fs"
  by simp

lemma map_of_setdefault_append:
  "map_of (setdefault_append k v d) k' =
     (if k' = k then Some (grouped d k @ [v]) else map_of d k')"
  by (simp add: setdefault_append_def update_conv' grouped_def)

lemma distinct_setdefault_append:
  "distinct (map fst d) \<Longrightarrow> distinct (map fst (setdefault_append k v d))"
  by (simp add: setdefault_append_def distinct_update)

lemma index_word_exact [simp]: "exact_index (index_word s i n w idx) = exact_index idx"
  by (simp add: index_word_def)

lemma index_word_normalized [simp]: "normalized_index (index_word s i n w idx) = normalized_index idx"
  by (simp add: index_word_def)

lemma fold_index_word_exact [simp]:
  "exact_index (fold (index_word s i n) ws idx) = exact_index idx"
  by (induction ws arbitrary: idx) simp_all

lemma fold_index_word_normalized [simp]:
  "normalized_index (fold (index_word s i n) ws idx) = normalized_index idx"
  by (induction ws arbitrary: idx) simp_all

lemma index_name_exact:
  "extends exact_index (index_name name s i) (name_entries exact_keys s i name)"
  by (auto simp: extends_def index_name_def Let_def name_entries_def exact_keys_def entries_at_def
        map_of_setdefault_append distinct_setdefault_append)

lemma index_name_normalized:
  "extends normalized_index (index_name name s i) (name_entries normalized_keys s i name)"
  by (auto simp: extends_def index_name_def Let_def name_entries_def normalized_keys_def
        entries_at_def map_of_setdefault_append distinct_setdefault_append)

lemma concat_map_if_filter:
  "concat (map (\<lambda>e. if P (g e) then F (g e) else []) es) = concat (map F (filter P (map g es)))"
  by (induction es) simp_all

lemma index_localized_ext:
  assumes "\<And>n. extends sel (index_name n s i) (name_entries keys s i n)"
  shows "extends sel (index_localized name s i e)
           (if snd e \<noteq> [] \<and> snd e \<noteq> name then name_entries keys s i (snd e) else [])"
proof (cases "snd e \<noteq> [] \<and> snd e \<noteq> name")
  case True
  then have "index_localized name s i e = index_name (snd e) s i"
    by (cases e) (auto simp: index_localized_def)
  with True assms[of "snd e"] show ?thesis by simp
next
  case False
  then have "index_localized name s i e = (\<lambda>idx. idx)"
    by (cases e) (auto simp: index_localized_def)
  with False show ?thesis by (auto simp: extends_same)
qed

lemma fold_index_localized_ext:
  assumes "\<And>n. extends sel (index_name n s i) (name_entries keys s i n)"
  shows "extends sel (fold (index_localized name s i) es)
           (concat (map (name_entries keys s i)
              (filter (\<lambda>l. l \<noteq> [] \<and> l \<noteq> name) (map snd es))))"
  using extends_fold[of sel "index_localized name s i"
      "\<lambda>e. if snd e \<noteq> [] \<and> snd e \<noteq> name then name_entries keys s i (snd e) else []" es,
      OF index_localized_ext[OF assms]]
  by (simp add: concat_map_if_filter[of "\<lambda>l. l \<noteq> [] \<and> l \<noteq> name" snd])

lemma index_item_ext:
  assumes "\<And>n s i. extends sel (index_name n s i) (name_entries keys s i n)"
  shows "extends sel (index_item s it) (item_entries keys s it)"
proof (cases "item_id it = []")
  case True
  then have "index_item s it = (\<lambda>idx. idx)" by (auto simp: index_item_def)
  with True show ?thesis by (simp add: item_entries_def extends_same)
next
  case False
  define name where "name = (case item_name it of Some n \<Rightarrow> n | None \<Rightarrow> [])"
  define names where "names = (case name_i18n it of Some ns \<Rightarrow> ns | None \<Rightarrow> [])"
  define first where "first = (\<lambda>idx. if name \<noteq> [] then index_name name s (item_id it) idx else idx)"
  have first: "extends sel first (if name \<noteq> [] then name_entries keys s (item_id it) name else [])"
    unfolding first_def using assms[of name s "item_id it"] by (simp add: extends_same)
  have f: "index_item s it = (\<lambda>idx. fold (index_localized name s (item_id it)) names (first idx))"
    using False by (auto simp: index_item_def Let_def name_def names_def first_def)
  have e: "item_entries keys s it =
      (if name \<noteq> [] then name_entries keys s (item_id it) name else []) @
      concat (map (name_entries keys s (item_id it))
                (filter (\<lambda>l. l \<noteq> [] \<and> l \<noteq> name) (map snd names)))"
    using False by (simp add: item_entries_def indexed_names_def Let_def name_def names_def)
  from extends_comp[OF first
      fold_index_localized_ext[OF assms, where s = s and i = "item_id it" and name = name
        and es = names]]
  show ?thesis unfolding f e .
qed

lemma index_slot_ext:
  assumes "\<And>n s i. extends sel (index_name n s i) (name_entries keys s i n)"
  shows "extends sel (index_slot gen s) (slot_entries keys gen s)"
proof -
  have "index_slot gen s = fold (index_item s) (get_slot_options gen s)"
    by (auto simp: index_slot_def)
  with extends_fold[of sel "index_item s" "item_entries keys s" "get_slot_options gen s",
      OF index_item_ext[OF assms]]
  show ?thesis by (simp add: slot_entries_def)
qed

lemma index_color_i18n_same:
  assumes "\<And>c e idx. sel (index_color_name c e idx) = sel idx"
  shows "sel (fold index_color_i18n entries idx) = sel idx"
proof (induction entries arbitrary: idx)
  case Nil
  show ?case by simp
next
  case (Cons e entries)
  have inner: "sel (fold (index_color_name c) es idx') = sel idx'" for c es idx'
    by (induction es arbitrary: idx') (simp_all add: assms)
  have step: "fold index_color_i18n (e # entries) idx
      = fold index_color_i18n entries (fold (index_color_name (fst e)) (snd e) idx)"
    by (cases e) (simp add: index_color_i18n_def)
  show ?case unfolding step Cons inner ..
qed

lemma build_indices_ext:
  assumes name: "\<And>n s i. extends sel (index_name n s i) (name_entries keys s i n)"
    and c1: "\<And>c idx. sel (index_color c idx) = sel idx"
    and c2: "\<And>c e idx. sel (index_color_name c e idx) = sel idx"
    and empty: "sel empty_indices = []"
  shows "map_of (sel (build_indices gen)) k =
           (if entries_at (index_entries keys gen) k = [] then None
            else Some (entries_at (index_entries keys gen) k))"
    and "distinct (map fst (sel (build_indices gen)))"
proof -
  let ?items = "fold (index_slot gen) slot_names empty_indices"
  have colors: "sel (fold index_color cs idx) = sel idx" for cs idx
    by (induction cs arbitrary: idx) (simp_all add: c1)
  have same: "sel (build_indices gen) = sel ?items"
    by (simp add: build_indices_def index_color_i18n_same[of sel, OF c2] colors)
  have ext: "extends sel (fold (index_slot gen) slot_names) (index_entries keys gen)"
    using extends_fold[of sel "index_slot gen" "slot_entries keys gen" slot_names,
        OF index_slot_ext[OF name]]
    by (simp add: index_entries_def)
  then show "map_of (sel (build_indices gen)) k =
           (if entries_at (index_entries keys gen) k = [] then None
            else Some (entries_at (index_entries keys gen) k))"
    unfolding same by (simp add: extends_def empty grouped_def)
  from ext show "distinct (map fst (sel (build_indices gen)))"
    unfolding same by (simp add: extends_def empty)
qed

lemma exact_index_built:
  "map_of (exact_index (build_indices gen)) k =
     (if entries_at (index_entries exact_keys gen) k = [] then None
      else Some (entries_at (index_entries exact_keys gen) k))"
  by (rule build_indices_ext(1)[of exact_index exact_keys, OF index_name_exact])
     (simp_all add: index_color_def index_color_name_def empty_indices_def split: prod.splits)

lemma normalized_index_built:
  "map_of (normalized_index (build_indices gen)) k =
     (if entries_at (index_entries normalized_keys gen) k = [] then None
      else Some (entries_at (index_entries normalized_keys gen) k))"
  by (rule build_indices_ext(1)[of normalized_index normalized_keys, OF index_name_normalized])
     (simp_all add: index_color_def index_color_name_def empty_indices_def split: prod.splits)

lemma exact_index_distinct: "distinct (map fst (exact_index (build_indices gen)))"
  by (rule build_indices_ext(2)[of exact_index exact_keys, OF index_name_exact])
     (simp_all add: index_color_def index_color_name_def empty_indices_def split: prod.splits)

text \<open>Entries are filed slot by slot, in the order of the schema.\<close>

lemma item_entries_slot: "e \<in> set (item_entries keys s it) \<Longrightarrow> fst (snd e) = s"
  by (auto simp: item_entries_def name_entries_def split: if_splits)

lemma slot_entries_slot: "e \<in> set (slot_entries keys gen s) \<Longrightarrow> fst (snd e) = s"
  by (auto simp: slot_entries_def dest: item_entries_slot)

lemma sorted_wrt_all: "(\<And>a b. a \<in> set xs \<Longrightarrow> b \<in> set xs \<Longrightarrow> P a b) \<Longrightarrow> sorted_wrt P xs"
  by (induction xs) auto

lemma pos_sorted_concat:
  assumes "\<And>n e. e \<in> set (E n) \<Longrightarrow> slot e = n" "distinct ns"
  shows "sorted_wrt (\<lambda>a b. length (takeWhile (\<lambda>n. n \<noteq> slot a) ns)
                         \<le> length (takeWhile (\<lambda>n. n \<noteq> slot b) ns))
           (concat (map E ns))"
  using assms(2)
proof (induction ns)
  case Nil
  show ?case by simp
next
  case (Cons n ns)
  then have d: "n \<notin> set ns" "distinct ns" by simp_all
  have tail_slot: "slot e \<in> set ns" if "e \<in> set (concat (map E ns))" for e
    using that assms(1) by auto
  have tail: "sorted_wrt (\<lambda>a b. length (takeWhile (\<lambda>m. m \<noteq> slot a) (n # ns))
                         \<le> length (takeWhile (\<lambda>m. m \<noteq> slot b) (n # ns)))
           (concat (map E ns))"
  proof (rule sorted_wrt_mono_rel[OF _ Cons.IH[OF d(2)]])
    fix a b
    assume "a \<in> set (concat (map E ns))" "b \<in> set (concat (map E ns))"
      and le: "length (takeWhile (\<lambda>n. n \<noteq> slot a) ns) \<le> length (takeWhile (\<lambda>n. n \<noteq> slot b) ns)"
    with tail_slot d(1) have "slot a \<noteq> n" "slot b \<noteq> n" by auto
    with le show "length (takeWhile (\<lambda>m. m \<noteq> slot a) (n # ns))
                         \<le> length (takeWhile (\<lambda>m. m \<noteq> slot b) (n # ns))"
      by simp
  qed
  have head: "sorted_wrt (\<lambda>a b. length (takeWhile (\<lambda>m. m \<noteq> slot a) (n # ns))
                         \<le> length (takeWhile (\<lambda>m. m \<noteq> slot b) (n # ns))) (E n)"
    by (rule sorted_wrt_all) (simp add: assms(1))
  have cross: "length (takeWhile (\<lambda>m. m \<noteq> slot a) (n # ns))
                 \<le> length (takeWhile (\<lambda>m. m \<noteq> slot b) (n # ns))"
    if "a \<in> set (E n)" for a b
    using that assms(1) by simp
  from head tail cross show ?case
    by (simp add: sorted_wrt_append)
qed

lemma distinct_slot_names: "distinct slot_names"
  by (simp add: slot_names_def SLOT_DEFINITIONS_def)

lemma entries_in_schema_order: "in_schema_order (entries_at (index_entries keys gen) k)"
proof -
  have "sorted_wrt (\<lambda>a b. slot_pos (fst (snd a)) \<le> slot_pos (fst (snd b))) (index_entries keys gen)"
    unfolding index_entries_def slot_pos_def
    by (rule pos_sorted_concat[OF slot_entries_slot distinct_slot_names])
  then have "sorted_wrt (\<lambda>a b. slot_pos (fst (snd a)) \<le> slot_pos (fst (snd b)))
               (filter (\<lambda>e. fst e = k) (index_entries keys gen))"
    by (rule sorted_wrt_filter)
  then show ?thesis
    by (simp add: in_schema_order_def entries_at_def sorted_wrt_map)
qed

lemma exact_in_schema_order:
  "map_of (exact_index (build_indices gen)) k = Some ms \<Longrightarrow> in_schema_order ms"
  using entries_in_schema_order[of exact_keys gen k]
  by (auto simp: exact_index_built split: if_splits)

lemma normalized_in_schema_order:
  "map_of (normalized_index (build_indices gen)) k = Some ms \<Longrightarrow> in_schema_order ms"
  using entries_in_schema_order[of normalized_keys gen k]
  by (auto simp: normalized_index_built split: if_splits)

lemma exact_entry_in_schema_order:
  "(k, ms) \<in> set (exact_index (build_indices gen)) \<Longrightarrow> in_schema_order ms"
  using exact_index_distinct[of gen] exact_in_schema_order[of gen k ms]
  by simp

section \<open>Assignment of a token to a slot\<close>

lemma assign_find:
  "assign mk results ms =
     (case find (\<lambda>m. results (fst m) = None) ms of
        None \<Rightarrow> None
      | Some m \<Rightarrow> Some (results(fst m \<mapsto> mk (fst m) (snd m))))"
  by (induction ms) (auto split: prod.splits)

lemma parse_token_assign:
  assumes "considered (text, w)" "extract_color idx text = Inr (c, item_text)"
    "cascade rt idx use_fuzzy item_text = (Some ms, conf)" "ms \<noteq> []"
  shows "parse_token rt idx use_fuzzy (text, w) st =
        Inr (case find (\<lambda>m. st_results st (fst m) = None) ms of
               Some m \<Rightarrow>
                 st\<lparr>st_results := (st_results st)(fst m \<mapsto> make_result c w conf (fst m) (snd m)),
                    st_matched_count := st_matched_count st + 1\<rparr>
             | None \<Rightarrow> st\<lparr>st_unmatched := st_unmatched st @ [text]\<rparr>)"
  using assms
  by (simp add: parse_token_def considered_def nonempty_def assign_find split: option.splits)

text \<open>The candidate set of the word strategy: the intersection over the words longer than two characters.\<close>

lemma distinct_slot_id_set: "distinct (slot_id_set wm)"
  by (simp add: slot_id_set_def)

lemma fold_match_word_some:
  "\<exists>cs. fold (match_word idx) ws (Some cs0) = Some cs \<and>
        (distinct cs0 \<longrightarrow> distinct cs) \<and>
        set cs = set cs0 \<inter> (\<Inter>w \<in> {w \<in> set ws. 2 < length w}.
                               set (slot_id_set (grouped (word_index idx) w)))"
proof (induction ws arbitrary: cs0)
  case Nil
  show ?case by simp
next
  case (Cons w ws)
  show ?case
  proof (cases "length w \<le> 2")
    case True
    with Cons[of cs0] show ?thesis by (auto simp: match_word_def)
  next
    case False
    define cs1 where "cs1 = filter (\<lambda>p. p \<in> set (slot_id_set (grouped (word_index idx) w))) cs0"
    from False have step: "match_word idx w (Some cs0) = Some cs1"
      by (simp add: match_word_def cs1_def Let_def grouped_def)
    from Cons[of cs1] obtain cs where cs: "fold (match_word idx) ws (Some cs1) = Some cs"
      "distinct cs1 \<longrightarrow> distinct cs"
      "set cs = set cs1 \<inter> (\<Inter>w \<in> {w \<in> set ws. 2 < length w}.
                               set (slot_id_set (grouped (word_index idx) w)))"
      by blast
    from False cs step show ?thesis by (auto simp: cs1_def)
  qed
qed

lemma fold_match_word_none:
  "fold (match_word idx) ws None = Some cs \<Longrightarrow>
     distinct cs \<and> {w \<in> set ws. 2 < length w} \<noteq> {} \<and>
     set cs = (\<Inter>w \<in> {w \<in> set ws. 2 < length w}. set (slot_id_set (grouped (word_index idx) w)))"
proof (induction ws)
  case Nil
  then show ?case by simp
next
  case (Cons w ws)
  show ?case
  proof (cases "length w \<le> 2")
    case True
    with Cons show ?thesis by (auto simp: match_word_def)
  next
    case False
    define cs1 where "cs1 = slot_id_set (grouped (word_index idx) w)"
    from False have step: "match_word idx w None = Some cs1"
      by (simp add: match_word_def cs1_def Let_def grouped_def)
    from fold_match_word_some[of idx ws cs1] Cons.prems step
    have "distinct cs" "set cs = set cs1 \<inter> (\<Inter>w \<in> {w \<in> set ws. 2 < length w}.
                               set (slot_id_set (grouped (word_index idx) w)))"
      by (auto simp: cs1_def distinct_slot_id_set)
    with False show ?thesis by (auto simp: cs1_def)
  qed
qed

lemma match_words_order:
  assumes "match_words rt idx t = Some ms"
  shows "\<exists>cs. ms = set_order rt cs \<and> cs \<noteq> [] \<and> distinct cs \<and>
           set cs = (\<Inter>w \<in> {w \<in> set (split_ws (lower t)). 2 < length w}.
                       set (slot_id_set (grouped (word_index idx) w)))"
proof -
  from assms obtain cs where cs: "fold (match_word idx) (split_ws (lower t)) None = Some cs"
    "cs \<noteq> []" "ms = set_order rt cs"
    by (auto simp: match_words_def split: option.splits if_splits)
  with fold_match_word_none[OF cs(1)] show ?thesis by blast
qed

text \<open>
  Claim C6, as amended. A token whose winning strategy returns candidates is assigned to
  the first candidate, in the order in which the strategy returns them, whose slot is not
  yet filled in this parse; when every candidate slot is filled the token is recorded as
  unmatched. The exact, the normalized and the fuzzy strategy return their candidates in
  the declaration order of the slot schema. The word-intersection strategy returns the
  elements of a set (the intersection of the candidate sets of the words longer than two
  characters) in the order in which Python iterates that set.
\<close>

theorem first_free_candidate:
  "(\<forall>c item_text ms conf.
      considered (text, w) \<and> extract_color idx text = Inr (c, item_text) \<and>
      cascade rt idx use_fuzzy item_text = (Some ms, conf) \<and> ms \<noteq> [] \<longrightarrow>
      parse_token rt idx use_fuzzy (text, w) st =
        Inr (case find (\<lambda>m. st_results st (fst m) = None) ms of
               Some m \<Rightarrow>
                 st\<lparr>st_results := (st_results st)(fst m \<mapsto> make_result c w conf (fst m) (snd m)),
                    st_matched_count := st_matched_count st + 1\<rparr>
             | None \<Rightarrow> st\<lparr>st_unmatched := st_unmatched st @ [text]\<rparr>)) \<and>
   (\<forall>t ms. match_exact (build_indices gen) t = Some ms \<longrightarrow> in_schema_order ms) \<and>
   (\<forall>t ms. match_normalized (build_indices gen) t = Some ms \<longrightarrow> in_schema_order ms) \<and>
   (\<forall>t ms score. match_fuzzy rt (build_indices gen) t (85 / 100) = Some (ms, score) \<longrightarrow>
      in_schema_order ms) \<and>
   (\<forall>t ms. match_words rt idx t = Some ms \<longrightarrow>
      (\<exists>cs. ms = set_order rt cs \<and> cs \<noteq> [] \<and> distinct cs \<and>
            set cs = (\<Inter>w \<in> {w \<in> set (split_ws (lower t)). 2 < length w}.
                        set (slot_id_set (grouped (word_index idx) w)))))"
proof -
  have fz: "in_schema_order ms"
    if "match_fuzzy rt (build_indices gen) t (85 / 100) = Some (ms, score)" for t ms score
  proof -
    from match_fuzzy_some[OF that] obtain name where
      "(name, ms) \<in> set (exact_index (build_indices gen))" by auto
    then show ?thesis by (rule exact_entry_in_schema_order)
  qed
  have step: "\<forall>c item_text ms conf.
      considered (text, w) \<and> extract_color idx text = Inr (c, item_text) \<and>
      cascade rt idx use_fuzzy item_text = (Some ms, conf) \<and> ms \<noteq> [] \<longrightarrow>
      parse_token rt idx use_fuzzy (text, w) st =
        Inr (case find (\<lambda>m. st_results st (fst m) = None) ms of
               Some m \<Rightarrow>
                 st\<lparr>st_results := (st_results st)(fst m \<mapsto> make_result c w conf (fst m) (snd m)),
                    st_matched_count := st_matched_count st + 1\<rparr>
             | None \<Rightarrow> st\<lparr>st_unmatched := st_unmatched st @ [text]\<rparr>)"
    by (intro allI impI, elim conjE) (rule parse_token_assign)
  have ex: "\<forall>t ms. match_exact (build_indices gen) t = Some ms \<longrightarrow> in_schema_order ms"
    unfolding match_exact_def by (intro allI impI) (rule exact_in_schema_order)
  have no: "\<forall>t ms. match_normalized (build_indices gen) t = Some ms \<longrightarrow> in_schema_order ms"
    unfolding match_normalized_def by (intro allI impI) (rule normalized_in_schema_order)
  have fu: "\<forall>t ms score. match_fuzzy rt (build_indices gen) t (85 / 100) = Some (ms, score) \<longrightarrow>
      in_schema_order ms"
    by (intro allI impI) (rule fz)
  have wo: "\<forall>t ms. match_words rt idx t = Some ms \<longrightarrow>
      (\<exists>cs. ms = set_order rt cs \<and> cs \<noteq> [] \<and> distinct cs \<and>
            set cs = (\<Inter>w \<in> {w \<in> set (split_ws (lower t)). 2 < length w}.
                        set (slot_id_set (grouped (word_index idx) w))))"
    by (intro allI impI) (rule match_words_order)
  from step ex no fu wo show ?thesis by (intro conjI)
qed

theorem first_free_candidate_witness:
  "map_sum id (\<lambda>st. map_option (\<lambda>r. (res_value_id r, res_color r, res_confidence r))
                      (st_results st ''full_body''))
     (parse_token example_runtime (build_indices gen_scenario) False (''red dress'', 1) empty_state)
     = Inr (Some (''dress_casual'', Some ''red'', 1)) \<and>
   map_sum id st_unmatched
     (parse_loop example_runtime (build_indices gen_scenario) False
        [(''red dress'', 1), (''dress'', 1)] empty_state)
     = Inr [''dress''] \<and>
   in_schema_order [(''full_body'', ''dress_casual'')]"
proof -
  let ?idx = "build_indices gen_scenario"
  let ?rt = example_runtime
  note T = first_free_candidate[of "''red dress''" 1 ?idx ?rt False empty_state gen_scenario]
  have h: "considered (''red dress'', 1)"
    "extract_color ?idx ''red dress'' = Inr (Some ''red'', ''dress'')"
    "cascade ?rt ?idx False ''dress'' = (Some [(''full_body'', ''dress_casual'')], 1)"
    by code_simp+
  have f: "find (\<lambda>m. st_results empty_state (fst m) = None) [(''full_body'', ''dress_casual'')]
      = Some (''full_body'', ''dress_casual'')"
    by (simp add: empty_state_def)
  from h have prem: "considered (''red dress'', 1) \<and>
      extract_color ?idx ''red dress'' = Inr (Some ''red'', ''dress'') \<and>
      cascade ?rt ?idx False ''dress'' = (Some [(''full_body'', ''dress_casual'')], 1) \<and>
      [(''full_body'', ''dress_casual'')] \<noteq> []"
    by (intro conjI) simp_all
  have "parse_token ?rt ?idx False (''red dress'', 1) empty_state =
        Inr (case find (\<lambda>m. st_results empty_state (fst m) = None)
                    [(''full_body'', ''dress_casual'')] of
               Some m \<Rightarrow>
                 empty_state\<lparr>st_results := (st_results empty_state)
                                (fst m \<mapsto> make_result (Some ''red'') 1 1 (fst m) (snd m)),
                    st_matched_count := st_matched_count empty_state + 1\<rparr>
             | None \<Rightarrow> empty_state\<lparr>st_unmatched := st_unmatched empty_state @ [''red dress'']\<rparr>)"
    by (rule T[THEN conjunct1, rule_format, OF prem])
  with f have step: "parse_token ?rt ?idx False (''red dress'', 1) empty_state =
      Inr (empty_state\<lparr>st_results := (st_results empty_state)
          (''full_body'' \<mapsto> make_result (Some ''red'') 1 1 ''full_body'' ''dress_casual''),
        st_matched_count := st_matched_count empty_state + 1\<rparr>)"
    by simp
  have hc: "slot_has_color ''full_body''" by code_simp
  from step hc have a: "map_sum id (\<lambda>st. map_option (\<lambda>r. (res_value_id r, res_color r, res_confidence r))
                      (st_results st ''full_body''))
     (parse_token ?rt ?idx False (''red dress'', 1) empty_state)
     = Inr (Some (''dress_casual'', Some ''red'', 1))"
    by (simp add: make_result_def)
  have b: "map_sum id st_unmatched
     (parse_loop ?rt ?idx False [(''red dress'', 1), (''dress'', 1)] empty_state) = Inr [''dress'']"
    by code_simp
  have e: "match_exact ?idx ''dress'' = Some [(''full_body'', ''dress_casual'')]"
    by code_simp
  have c: "in_schema_order [(''full_body'', ''dress_casual'')]"
    by (rule T[THEN conjunct2, THEN conjunct1, rule_format, OF e])
  from a b c show ?thesis by (intro conjI)
qed

text \<open>
  The claim as stated fails for the word-intersection strategy: when the set is iterated
  with the later slot first, the token goes to the later slot although the earlier slot
  of the schema is free.
\<close>

theorem schema_order_counterexample:
  "match_words reversed_runtime (build_indices gen_hair) ''long hair''
     = Some [(''hair_length'', ''hl_very''), (''hair_style'', ''hs_wavy'')] \<and>
   slot_pos ''hair_style'' < slot_pos ''hair_length'' \<and>
   parsed_value_id (parse reversed_runtime (build_indices gen_hair) ''long hair'' False)
     ''hair_style'' = Inr None \<and>
   parsed_value_id (parse reversed_runtime (build_indices gen_hair) ''long hair'' False)
     ''hair_length'' = Inr (Some ''hl_very'')"
  by code_simp
section \<open>Round trip: assemble, then parse\<close>

lemma strip_space: "strip (CHR '' '' # s) = strip s"
  by (simp add: strip_def is_space_def)

lemma strip_parens: "strip (''('' @ s @ '')'') = ''('' @ s @ '')''"
  by (simp add: strip_def is_space_def)

lemma digit_char_digit: "d < 10 \<Longrightarrow> digit_char d \<in> set ''0123456789''"
  unfolding digit_char_def by (rule nth_mem) simp

lemma str_nat_digits: "c \<in> set (str_nat n) \<Longrightarrow> c \<in> set ''0123456789''"
proof (induction n rule: str_nat.induct)
  case (1 n)
  show ?case
  proof (cases "n < 10")
    case True
    with "1.prems" have "c = digit_char n" by (subst (asm) str_nat.simps) simp
    with True show ?thesis by (simp only: digit_char_digit)
  next
    case False
    with "1.prems" have "c \<in> set (str_nat (n div 10)) \<or> c = digit_char (n mod 10)"
      by (subst (asm) str_nat.simps) auto
    then show ?thesis
    proof
      assume "c \<in> set (str_nat (n div 10))"
      with False "1.IH" show ?thesis by simp
    next
      assume "c = digit_char (n mod 10)"
      then show ?thesis by (simp only: digit_char_digit[of "n mod 10"] mod_less_divisor)
    qed
  qed
qed

lemma format_1f_chars:
  assumes "c \<in> set (format_1f w)"
  shows "c = CHR ''-'' \<or> c = CHR ''.'' \<or> c \<in> set ''0123456789''"
proof -
  define n where "n = nat (round_half_even (\<bar>w\<bar> * 10))"
  from assms have "c = CHR ''-'' \<or> c \<in> set (str_nat (n div 10)) \<or> c = CHR ''.'' \<or>
      c = digit_char (n mod 10)"
    by (auto simp: format_1f_def Let_def n_def split: if_splits)
  moreover have "digit_char (n mod 10) \<in> set ''0123456789''"
    by (rule digit_char_digit) simp
  ultimately show ?thesis using str_nat_digits[of c "n div 10"] by blast
qed

lemma digit_not_colon_comma: "c \<in> set ''0123456789'' \<Longrightarrow> c \<noteq> CHR '':'' \<and> c \<noteq> CHR '',''"
  by auto

lemma format_1f_no_colon: "CHR '':'' \<notin> set (format_1f w)"
  using format_1f_chars[of "CHR '':''" w] digit_not_colon_comma[of "CHR '':''"] by blast

lemma format_1f_no_comma: "CHR '','' \<notin> set (format_1f w)"
  using format_1f_chars[of "CHR '',''" w] digit_not_colon_comma[of "CHR '',''"] by blast

lemma split_on_single: "sep \<notin> set a \<Longrightarrow> split_on sep a = [a]"
  by (induction a) auto

lemma split_on_append: "sep \<notin> set a \<Longrightarrow> split_on sep (a @ sep # b) = a # split_on sep b"
  by (induction a) auto

lemma split_on_join:
  "CHR '','' \<notin> set pre \<Longrightarrow> \<forall>p \<in> set (q # ps). CHR '','' \<notin> set p \<Longrightarrow>
   split_on CHR '','' (pre @ join '', '' (q # ps)) = (pre @ q) # map ((#) CHR '' '') ps"
proof (induction ps arbitrary: pre q)
  case Nil
  then show ?case by (simp add: split_on_single)
next
  case (Cons p ps)
  have shape: "pre @ join '', '' (q # p # ps) = (pre @ q) @ CHR '','' # ('' '' @ join '', '' (p # ps))"
    by simp
  from Cons.prems have "CHR '','' \<notin> set (pre @ q)" by simp
  then have "split_on CHR '','' ((pre @ q) @ CHR '','' # ('' '' @ join '', '' (p # ps)))
      = (pre @ q) # split_on CHR '','' ('' '' @ join '', '' (p # ps))"
    by (rule split_on_append)
  moreover from Cons.prems have "split_on CHR '','' ('' '' @ join '', '' (p # ps))
      = ('' '' @ p) # map ((#) CHR '' '') ps"
    by (intro Cons.IH) simp_all
  ultimately show ?case unfolding shape by simp
qed

lemma tokenize_part_subject: "tokenize_part rt ''1girl'' = Some (''1girl'', 1)"
  by (simp add: tokenize_part_def strip_def is_space_def startswith_def)

lemma subject_skipped: "\<not> considered (''1girl'', w)"
  by (simp add: considered_def skip_tokens_def lower_def lower_char_def)

lemma tokenize_part_plain:
  assumes "seg \<noteq> []" "strip seg = seg" "\<not> startswith seg ''(''"
  shows "tokenize_part rt (CHR '' '' # seg) = Some (seg, 1)"
  using assms by (simp add: tokenize_part_def strip_space)

lemma tokenize_part_weighted:
  assumes "seg \<noteq> []" "py_float rt (format_1f w) = Some x"
  shows "tokenize_part rt (CHR '' '' # ''('' @ seg @ '':'' @ format_1f w @ '')'') = Some (seg, x)"
proof -
  have "strip (CHR '' '' # ''('' @ seg @ '':'' @ format_1f w @ '')'')
      = ''('' @ seg @ '':'' @ format_1f w @ '')''"
    using strip_parens[of "seg @ '':'' @ format_1f w"] by (simp add: strip_space)
  from weighted_part[OF this assms(1) format_1f_no_colon, of rt] assms(2)
  show ?thesis by simp
qed

lemma tokenize_part_segment:
  assumes "seg \<noteq> []" "strip seg = seg" "\<not> startswith seg ''(''"
    "w = 1 \<or> py_float rt (format_1f w) \<noteq> None"
  shows "\<exists>x. tokenize_part rt (CHR '' '' # apply_weight w seg) = Some (seg, x)"
proof (cases "w = 1")
  case True
  with tokenize_part_plain[OF assms(1-3), of rt] show ?thesis
    by (simp add: apply_weight_def)
next
  case False
  with assms(4) obtain x where "py_float rt (format_1f w) = Some x" by auto
  from tokenize_part_weighted[OF assms(1) this] False show ?thesis
    by (simp add: apply_weight_def)
qed

lemma apply_weight_no_comma: "CHR '','' \<notin> set seg \<Longrightarrow> CHR '','' \<notin> set (apply_weight w seg)"
  by (simp add: apply_weight_def format_1f_no_comma)

lemma concat_map_some:
  "(\<And>n. n \<in> set ns \<Longrightarrow> f (h n) = Some (g n)) \<Longrightarrow>
   concat (map (\<lambda>p. case f p of None \<Rightarrow> [] | Some t \<Rightarrow> [t]) (map h ns)) = map g ns"
  by (induction ns) simp_all

lemma cascade_exact:
  "match_exact idx t = Some ms \<Longrightarrow> ms \<noteq> [] \<Longrightarrow> cascade rt idx use_fuzzy t = (Some ms, 1)"
  by (simp add: cascade_def Let_def nonempty_def)

lemma parse_token_hit:
  assumes c: "considered (text, w)"
    and ex: "extract_color idx text = Inr (col, item_text)"
    and look: "map_of (exact_index idx) (lower item_text) = Some ms"
    and ms: "ms \<noteq> []" "list_all (\<lambda>m. m = (n, v)) ms"
    and free: "st_results st n = None"
  shows "\<exists>r. parse_token rt idx use_fuzzy (text, w) st
               = Inr (st\<lparr>st_results := (st_results st)(n \<mapsto> r),
                         st_matched_count := st_matched_count st + 1\<rparr>) \<and>
             res_value_id r = v"
proof -
  from look have "match_exact idx item_text = Some ms" by (simp add: match_exact_def)
  from cascade_exact[OF this ms(1)] have cas: "cascade rt idx use_fuzzy item_text = (Some ms, 1)" .
  from ms obtain rest where "ms = (n, v) # rest" by (cases ms) auto
  with free have "find (\<lambda>m. st_results st (fst m) = None) ms = Some (n, v)" by simp
  with parse_token_assign[OF c ex cas ms(1), of st]
  have "parse_token rt idx use_fuzzy (text, w) st
      = Inr (st\<lparr>st_results := (st_results st)(n \<mapsto> make_result col w 1 n v),
                st_matched_count := st_matched_count st + 1\<rparr>)"
    by simp
  moreover have "res_value_id (make_result col w 1 n v) = v"
    by (simp add: make_result_def)
  ultimately show ?thesis by blast
qed

lemma parse_loop_round_trip:
  assumes "distinct ns"
    and "\<And>n. n \<in> set ns \<Longrightarrow>
           considered (seg n, wt n) \<and>
           (\<exists>col item_text ms.
              extract_color idx (seg n) = Inr (col, item_text) \<and>
              map_of (exact_index idx) (lower item_text) = Some ms \<and>
              ms \<noteq> [] \<and> list_all (\<lambda>m. m = (n, vid n)) ms)"
    and "\<And>n. n \<in> set ns \<Longrightarrow> st_results st n = None"
  shows "\<exists>st'. parse_loop rt idx use_fuzzy (map (\<lambda>n. (seg n, wt n)) ns) st = Inr st' \<and>
           (\<forall>n \<in> set ns. map_option res_value_id (st_results st' n) = Some (vid n)) \<and>
           (\<forall>m. m \<notin> set ns \<longrightarrow> st_results st' m = st_results st m)"
  using assms
proof (induction ns arbitrary: st)
  case Nil
  show ?case by simp
next
  case (Cons n ns)
  from Cons.prems(2)[of n] obtain col item_text ms where good: "considered (seg n, wt n)"
    "extract_color idx (seg n) = Inr (col, item_text)"
    "map_of (exact_index idx) (lower item_text) = Some ms"
    "ms \<noteq> []" "list_all (\<lambda>m. m = (n, vid n)) ms"
    by auto
  from Cons.prems(3)[of n] have free: "st_results st n = None" by simp
  from parse_token_hit[OF good free, of rt use_fuzzy] obtain r where
    step: "parse_token rt idx use_fuzzy (seg n, wt n) st
      = Inr (st\<lparr>st_results := (st_results st)(n \<mapsto> r),
                st_matched_count := st_matched_count st + 1\<rparr>)"
    and r: "res_value_id r = vid n"
    by blast
  define st1 where "st1 = st\<lparr>st_results := (st_results st)(n \<mapsto> r),
                st_matched_count := st_matched_count st + 1\<rparr>"
  have res1: "st_results st1 = (st_results st)(n \<mapsto> r)" by (simp add: st1_def)
  from Cons.prems(1) have d: "n \<notin> set ns" "distinct ns" by simp_all
  have free1: "st_results st1 m = None" if "m \<in> set ns" for m
    using that d(1) Cons.prems(3)[of m] res1 by auto
  have good1: "considered (seg m, wt m) \<and>
           (\<exists>col item_text ms.
              extract_color idx (seg m) = Inr (col, item_text) \<and>
              map_of (exact_index idx) (lower item_text) = Some ms \<and>
              ms \<noteq> [] \<and> list_all (\<lambda>x. x = (m, vid m)) ms)" if "m \<in> set ns" for m
    using that Cons.prems(2)[of m] by simp
  from Cons.IH[OF d(2) good1 free1] obtain st' where
    run: "parse_loop rt idx use_fuzzy (map (\<lambda>n. (seg n, wt n)) ns) st1 = Inr st'"
    and later: "\<forall>m \<in> set ns. map_option res_value_id (st_results st' m) = Some (vid m)"
    and other: "\<forall>m. m \<notin> set ns \<longrightarrow> st_results st' m = st_results st1 m"
    by blast
  from step run have whole:
    "parse_loop rt idx use_fuzzy (map (\<lambda>n. (seg n, wt n)) (n # ns)) st = Inr st'"
    by (simp add: st1_def)
  from other d(1) res1 r have here: "map_option res_value_id (st_results st' n) = Some (vid n)"
    by simp
  have rest: "st_results st' m = st_results st m" if "m \<notin> set (n # ns)" for m
    using that other res1 by simp
  from whole later here rest show ?case by auto
qed

lemma distinct_slot_order: "distinct slot_order"
  by (simp add: slot_order_def)

subsection \<open>The display name of an emitted slot and its entry in the exact index\<close>

lemma is_space_lower_char: "is_space (lower_char c) = is_space c"
  by (auto simp: lower_char_def is_space_def)

lemma strip_lower: "strip (lower s) = lower (strip s)"
proof -
  have comp: "is_space \<circ> lower_char = is_space"
    by (rule ext) (simp add: is_space_lower_char)
  show ?thesis
    by (simp add: strip_def lower_def dropWhile_map rev_map comp)
qed

lemma strip_Nil: "(strip s = []) = (\<forall>c \<in> set s. is_space c)"
proof
  assume "strip s = []"
  then have "dropWhile is_space (rev (dropWhile is_space s)) = []"
    by (simp add: strip_def)
  then have all: "\<And>c. c \<in> set (dropWhile is_space s) \<Longrightarrow> is_space c"
    by (simp only: dropWhile_eq_Nil_conv set_rev)
  have "dropWhile is_space s = []"
  proof (rule ccontr)
    assume ne: "dropWhile is_space s \<noteq> []"
    then have "\<not> is_space (hd (dropWhile is_space s))" by (rule hd_dropWhile)
    moreover from ne have "hd (dropWhile is_space s) \<in> set (dropWhile is_space s)"
      by (rule hd_in_set)
    ultimately show False using all by blast
  qed
  then show "\<forall>c \<in> set s. is_space c" by (simp only: dropWhile_eq_Nil_conv)
next
  assume "\<forall>c \<in> set s. is_space c"
  then have "dropWhile is_space s = []" by (simp only: dropWhile_eq_Nil_conv)
  then show "strip s = []" by (simp only: strip_def dropWhile.simps rev.simps)
qed

lemma strip_last: "strip s = s \<Longrightarrow> s \<noteq> [] \<Longrightarrow> \<not> is_space (last s)"
proof -
  assume s: "strip s = s" "s \<noteq> []"
  then have "dropWhile is_space (rev (dropWhile is_space s)) = rev s"
    by (metis strip_def rev_rev_ident)
  moreover from s have "rev s \<noteq> []" by simp
  ultimately have "\<not> is_space (hd (rev s))" by (metis hd_dropWhile)
  with s show ?thesis by (simp add: hd_rev)
qed

lemma items_by_id_id: "items_by_id gen catalog_name i = Some it \<Longrightarrow> item_id it = i"
  by (auto simp: items_by_id_def split: option.splits dest!: map_of_SomeD)

lemma slot_item_facts:
  assumes "get_slot_item_by_id gen n vid = Some it"
  shows "\<exists>v d. vid = Some v \<and> v \<noteq> [] \<and> item_id it = v \<and>
           map_of SLOT_DEFINITIONS n = Some d \<and> items_by_id gen (sd_catalog d) v = Some it"
  using assms
  by (auto simp: get_slot_item_by_id_def items_by_id_id split: option.splits if_splits)

lemma resolve_by_id:
  assumes "get_slot_item_by_id gen n vid = Some it"
  shows "resolve_slot_item gen n vid vname = Some it"
proof -
  from slot_item_facts[OF assms] obtain v d where "vid = Some v" "v \<noteq> []"
    "map_of SLOT_DEFINITIONS n = Some d" "items_by_id gen (sd_catalog d) v = Some it"
    by blast
  then show ?thesis by (simp add: resolve_slot_item_def Let_def)
qed

lemma localized_indexed:
  assumes "truthy (item_name it)"
  shows "get_item_localized_name it language \<in> set (indexed_names it) \<and>
         get_item_localized_name it language \<noteq> []"
proof -
  from assms obtain name where name: "item_name it = Some name" "name \<noteq> []"
    by (auto simp: truthy_def split: option.splits)
  define lang where "lang = normalize_language language"
  show ?thesis
  proof (cases "name_i18n it")
    case None
    with name show ?thesis
      by (simp add: get_item_localized_name_def indexed_names_def Let_def)
  next
    case (Some names)
    show ?thesis
    proof (cases "py_or (map_of names lang) (map_of names ''en'')")
      case None
      with Some name show ?thesis
        by (simp add: get_item_localized_name_def indexed_names_def Let_def lang_def)
    next
      case found: (Some localized)
      show ?thesis
      proof (cases "strip localized \<noteq> []")
        case False
        with found Some name show ?thesis
          by (simp add: get_item_localized_name_def indexed_names_def Let_def lang_def)
      next
        case True
        then have ne: "localized \<noteq> []" by (auto simp: strip_def)
        from found have "map_of names lang = Some localized \<or> map_of names ''en'' = Some localized"
          by (auto simp: py_or_def split: option.splits if_splits)
        then have "localized \<in> snd ` set names"
          by (auto dest!: map_of_SomeD intro: rev_image_eqI)
        with True ne found Some name show ?thesis
          by (auto simp: get_item_localized_name_def indexed_names_def Let_def lang_def)
      qed
    qed
  qed
qed

lemma localized_name_item:
  assumes "get_slot_item_by_id gen n (value_id slot) = Some it" "truthy (item_name it)"
  shows "localized_name gen n slot language = get_item_localized_name it language"
  using resolve_by_id[OF assms(1), of "slot_value slot"] localized_indexed[OF assms(2), of language]
  by (simp add: localized_name_def resolve_slot_value_name_def Let_def)

lemma segment_shape:
  "segment_text gen n slot language =
     (if color_text gen slot language = [] then localized_name gen n slot language
      else color_text gen slot language @ CHR '' '' # localized_name gen n slot language)"
proof (cases "color_enabled slot \<and> truthy (color slot)")
  case False
  then show ?thesis by (auto simp: segment_text_def color_text_def)
next
  case True
  then obtain s where s: "color slot = Some s" "s \<noteq> []"
    by (auto simp: truthy_def split: option.splits)
  then have "\<exists>t. py_or (localize_color_token gen (color slot) language) (color slot) = Some t \<and>
      t \<noteq> []"
    by (cases "localize_color_token gen (color slot) language") (auto simp: py_or_def)
  then obtain t where t: "py_or (localize_color_token gen (color slot) language) (color slot) = Some t"
    "t \<noteq> []"
    by blast
  with True show ?thesis by (simp add: segment_text_def color_text_def)
qed

lemma slot_names_defined: "map_of SLOT_DEFINITIONS n = Some d \<Longrightarrow> n \<in> set slot_names"
  unfolding slot_names_def by (auto dest!: map_of_SomeD intro: rev_image_eqI)

lemma entry_filed:
  assumes "it \<in> set (get_slot_options gen n)" "n \<in> set slot_names" "item_id it \<noteq> []"
    "name \<in> set (indexed_names it)" "strip (lower name) \<noteq> []"
  shows "(strip (lower name), n, item_id it) \<in> set (index_entries exact_keys gen)"
proof -
  from assms(5) have "(strip (lower name), n, item_id it)
      \<in> set (name_entries exact_keys n (item_id it) name)"
    by (simp add: name_entries_def exact_keys_def Let_def)
  with assms(3,4) have "(strip (lower name), n, item_id it) \<in> set (item_entries exact_keys n it)"
    by (auto simp: item_entries_def)
  with assms(1) have "(strip (lower name), n, item_id it) \<in> set (slot_entries exact_keys gen n)"
    by (auto simp: slot_entries_def)
  with assms(2) show ?thesis by (auto simp: index_entries_def)
qed

lemma unique_entries:
  assumes "unique_display_names gen" "(k, m) \<in> set (index_entries exact_keys gen)"
  shows "entries_at (index_entries exact_keys gen) k \<noteq> [] \<and>
         list_all (\<lambda>x. x = m) (entries_at (index_entries exact_keys gen) k)"
proof -
  from assms(2) have "m \<in> set (entries_at (index_entries exact_keys gen) k)"
    by (force simp: entries_at_def)
  then have ne: "entries_at (index_entries exact_keys gen) k \<noteq> []" by auto
  have "x = m" if "x \<in> set (entries_at (index_entries exact_keys gen) k)" for x
  proof -
    from that have "(k, x) \<in> set (index_entries exact_keys gen)"
      by (auto simp: entries_at_def)
    with assms show ?thesis
      by (auto simp: unique_display_names_def list_all_iff split: if_splits)
  qed
  with ne show ?thesis by (simp add: list_all_iff)
qed

subsection \<open>Colour extraction on an emitted segment\<close>

lemma extract_color_plain:
  assumes free: "dollar_free seg"
    and nocand: "list_all (\<lambda>k. \<not> (seg ! k = CHR '' '' \<and>
                    take k (lower seg) \<in> lower ` set (color_words gen))) [Suc 0 ..< length seg]"
  shows "extract_color (build_indices gen) seg = Inr (None, seg)"
proof (rule extract_color_no_candidate[OF free])
  from nocand show "\<forall>k. 1 \<le> k \<and> k < length seg \<and> seg ! k = CHR '' '' \<longrightarrow>
         take k (lower seg) \<notin> lower ` set (color_words gen)"
    by (auto simp: list_all_iff)
qed

lemma extract_color_colored:
  assumes seg: "seg = ct @ CHR '' '' # name" and ct: "ct \<noteq> []"
    and free: "dollar_free seg"
    and word: "lower ct \<in> lower ` set (color_words gen)"
    and nocand: "list_all (\<lambda>k. \<not> (seg ! k = CHR '' '' \<and>
                    take k (lower seg) \<in> lower ` set (color_words gen)))
                   [Suc (length ct) ..< length seg]"
  shows "\<exists>c. extract_color (build_indices gen) seg = Inr (Some c, strip name)"
proof -
  let ?t = "color_trie (build_indices gen)"
  let ?k = "length ct"
  from find_prefix_total[OF free, of ?t] obtain r where r: "find_prefix ?t seg = Inr r"
    by blast
  have k1: "1 \<le> ?k" using ct by (cases ct) simp_all
  have k2: "?k < length seg" by (simp add: seg)
  have k3: "seg ! ?k = CHR '' ''" by (simp add: seg)
  have tk: "take ?k (lower seg) = lower ct" by (simp add: seg lower_def)
  from word tk have k4: "take ?k (lower seg) \<in> lower ` set (color_words gen)" by simp
  from free have k5: "dollar_free (take ?k (lower seg))"
    by (simp add: dollar_free_take dollar_free_lower)
  from find_prefix_longest[OF k1 k2 k3 k4 k5 r] obtain c n where
    cn: "r = Some (c, n)" "?k < n" by blast
  from find_prefix_found[of gen seg c n] r cn obtain j where j: "n = j + 1" "1 \<le> j"
    "j < length seg" "seg ! j = CHR '' ''" "take j (lower seg) \<in> lower ` set (color_words gen)"
    by blast
  have "j = ?k"
  proof (rule ccontr)
    assume "j \<noteq> ?k"
    with cn(2) j(1) have "Suc ?k \<le> j" by simp
    with j(3) have "j \<in> set [Suc ?k ..< length seg]" by simp
    with nocand j(4,5) show False by (auto simp: list_all_iff)
  qed
  with j(1) have "drop n seg = name" by (simp add: seg)
  with r cn show ?thesis by (simp add: extract_color_def)
qed

subsection \<open>What a ready slot gives the parser\<close>

lemma ready_facts:
  assumes "round_trip_ready rt gen config language n"
  shows "\<exists>sc it. slots config n = Some sc \<and>
           get_slot_item_by_id gen n (value_id sc) = Some it \<and>
           it \<in> set (get_slot_options gen n) \<and>
           truthy (item_name it) \<and>
           CHR '','' \<notin> set (segment_text gen n sc language) \<and>
           dollar_free (segment_text gen n sc language) \<and>
           strip (segment_text gen n sc language) = segment_text gen n sc language \<and>
           \<not> startswith (segment_text gen n sc language) ''('' \<and>
           lower (segment_text gen n sc language) \<notin> set skip_tokens \<and>
           (color_text gen sc language = [] \<or>
            lower (color_text gen sc language) \<in> lower ` set (color_words gen)) \<and>
           list_all (\<lambda>k. \<not> (segment_text gen n sc language ! k = CHR '' '' \<and>
                             take k (lower (segment_text gen n sc language))
                               \<in> lower ` set (color_words gen)))
             [Suc (length (color_text gen sc language))
                ..< length (segment_text gen n sc language)] \<and>
           (weight sc = 1 \<or> py_float rt (format_1f (weight sc)) \<noteq> None)"
proof -
  from assms obtain sc where sc: "slots config n = Some sc"
    unfolding round_trip_ready_def by (cases "slots config n") simp_all
  with assms obtain it where it: "get_slot_item_by_id gen n (value_id sc) = Some it"
    unfolding round_trip_ready_def by (cases "get_slot_item_by_id gen n (value_id sc)") simp_all
  from assms sc it show ?thesis
    unfolding round_trip_ready_def Let_def by simp
qed

lemma ready_parses:
  assumes uniq: "unique_display_names gen"
    and ready: "round_trip_ready rt gen config language n"
  shows "\<exists>sc v col item_text ms.
           slots config n = Some sc \<and> value_id sc = Some v \<and>
           segment_text gen n sc language \<noteq> [] \<and>
           CHR '','' \<notin> set (segment_text gen n sc language) \<and>
           strip (segment_text gen n sc language) = segment_text gen n sc language \<and>
           \<not> startswith (segment_text gen n sc language) ''('' \<and>
           lower (segment_text gen n sc language) \<notin> set skip_tokens \<and>
           (weight sc = 1 \<or> py_float rt (format_1f (weight sc)) \<noteq> None) \<and>
           extract_color (build_indices gen) (segment_text gen n sc language)
             = Inr (col, item_text) \<and>
           map_of (exact_index (build_indices gen)) (lower item_text) = Some ms \<and>
           ms \<noteq> [] \<and> list_all (\<lambda>m. m = (n, v)) ms"
proof -
  from ready_facts[OF ready] obtain sc it where sc: "slots config n = Some sc"
    and it: "get_slot_item_by_id gen n (value_id sc) = Some it"
    and opt: "it \<in> set (get_slot_options gen n)"
    and named: "truthy (item_name it)"
    and comma: "CHR '','' \<notin> set (segment_text gen n sc language)"
    and free: "dollar_free (segment_text gen n sc language)"
    and stripped: "strip (segment_text gen n sc language) = segment_text gen n sc language"
    and paren: "\<not> startswith (segment_text gen n sc language) ''(''"
    and skip: "lower (segment_text gen n sc language) \<notin> set skip_tokens"
    and word: "color_text gen sc language = [] \<or>
            lower (color_text gen sc language) \<in> lower ` set (color_words gen)"
    and nocand: "list_all (\<lambda>k. \<not> (segment_text gen n sc language ! k = CHR '' '' \<and>
                             take k (lower (segment_text gen n sc language))
                               \<in> lower ` set (color_words gen)))
             [Suc (length (color_text gen sc language))
                ..< length (segment_text gen n sc language)]"
    and wt: "weight sc = 1 \<or> py_float rt (format_1f (weight sc)) \<noteq> None"
    by blast
  define seg where "seg = segment_text gen n sc language"
  define ct where "ct = color_text gen sc language"
  define name where "name = get_item_localized_name it language"
  from slot_item_facts[OF it] obtain v d where v: "value_id sc = Some v" "v \<noteq> []"
    "item_id it = v" "map_of SLOT_DEFINITIONS n = Some d"
    by blast
  from localized_indexed[OF named, of language] have indexed: "name \<in> set (indexed_names it)"
    and name_ne: "name \<noteq> []"
    by (simp_all add: name_def)
  from localized_name_item[OF it named, of language]
  have shape: "seg = (if ct = [] then name else ct @ CHR '' '' # name)"
    by (simp add: seg_def ct_def name_def segment_shape)
  from shape name_ne have seg_ne: "seg \<noteq> []" by (simp split: if_splits)
  have blank: "strip name \<noteq> []"
  proof
    assume "strip name = []"
    then have all: "\<forall>c \<in> set name. is_space c" by (simp add: strip_Nil)
    with name_ne have "is_space (last name)" by simp
    moreover from shape name_ne have "last seg = last name" by (simp split: if_splits)
    moreover from stripped seg_ne have "\<not> is_space (last seg)"
      unfolding seg_def[symmetric] by (rule strip_last)
    ultimately show False by simp
  qed
  then have key_ne: "strip (lower name) \<noteq> []"
    unfolding strip_lower by (simp add: lower_def)
  from entry_filed[OF opt slot_names_defined[OF v(4)] _ indexed key_ne] v(2,3)
  have "(strip (lower name), n, v) \<in> set (index_entries exact_keys gen)" by simp
  from unique_entries[OF uniq this]
  have look: "map_of (exact_index (build_indices gen)) (lower (strip name))
      = Some (entries_at (index_entries exact_keys gen) (lower (strip name)))"
    and ms: "entries_at (index_entries exact_keys gen) (lower (strip name)) \<noteq> []"
      "list_all (\<lambda>m. m = (n, v)) (entries_at (index_entries exact_keys gen) (lower (strip name)))"
    by (simp_all add: exact_index_built strip_lower)
  have "\<exists>col item_text. extract_color (build_indices gen) seg = Inr (col, item_text) \<and>
      lower item_text = lower (strip name)"
  proof (cases "ct = []")
    case True
    with shape have eq: "seg = name" by simp
    from nocand True have "list_all (\<lambda>k. \<not> (seg ! k = CHR '' '' \<and>
        take k (lower seg) \<in> lower ` set (color_words gen))) [Suc 0 ..< length seg]"
      by (simp add: seg_def ct_def)
    from extract_color_plain[OF _ this] free
    have "extract_color (build_indices gen) seg = Inr (None, seg)"
      by (simp add: seg_def)
    moreover from stripped eq have "strip name = seg" by (simp add: seg_def)
    ultimately show ?thesis by simp
  next
    case False
    with shape have eq: "seg = ct @ CHR '' '' # name" by simp
    from word False have w: "lower ct \<in> lower ` set (color_words gen)"
      by (simp add: ct_def)
    from nocand have nc: "list_all (\<lambda>k. \<not> (seg ! k = CHR '' '' \<and>
        take k (lower seg) \<in> lower ` set (color_words gen))) [Suc (length ct) ..< length seg]"
      by (simp add: seg_def ct_def)
    from free have f: "dollar_free seg" by (simp add: seg_def)
    from extract_color_colored[OF eq False f w nc] show ?thesis by auto
  qed
  then obtain col item_text where
    ex: "extract_color (build_indices gen) seg = Inr (col, item_text)"
    and low: "lower item_text = lower (strip name)"
    by blast
  from sc v(1) seg_ne comma stripped paren skip wt ex look ms low
  show ?thesis unfolding seg_def by auto
qed

text \<open>
  Claim C1, as amended. Let the colour words hold no \<open>$\<close>, let no two display names of
  slot options that agree up to letter case and surrounding whitespace belong to
  different slots or item ids, and let every emitted slot of a configuration be ready for
  the round trip (\<open>round_trip_ready\<close>: its value id is the id of an option of the slot
  that has an English name; its segment holds no comma and no \<open>$\<close>, has no whitespace at
  either end and no opening parenthesis in front and is not a skip token; its colour text,
  if any, is a colour surface form, and no other colour surface form followed by a space
  is a prefix of the segment; its weight is 1.0 or prints as a text that \<open>float\<close>
  accepts). Then assembling the configuration and parsing the prompt with fuzzy matching
  disabled returns a result, and that result has, for every emitted slot, a matched slot
  whose value id is the original one.
\<close>

theorem round_trip:
  assumes words: "list_all dollar_free (color_words gen)"
    and uniq: "unique_display_names gen"
    and ready: "list_all (round_trip_ready rt gen config language) (emitted_slots gen config)"
  shows "list_all
           (\<lambda>slot_name.
              original_value_id config slot_name \<noteq> None \<and>
              parsed_value_id
                (parse rt (build_indices gen) (build_prompt_localized gen config language) False)
                slot_name
              = Inr (original_value_id config slot_name))
           (emitted_slots gen config)"
proof -
  let ?E = "emitted_slots gen config"
  let ?idx = "build_indices gen"
  let ?init = "\<lparr>st_results = Map.empty, st_unmatched = [], st_matched_count = 0\<rparr>"
  define seg where "seg = (\<lambda>n. case slots config n of
      Some sc \<Rightarrow> segment_text gen n sc language | None \<Rightarrow> [])"
  define wgt where "wgt = (\<lambda>n. case slots config n of Some sc \<Rightarrow> weight sc | None \<Rightarrow> 1)"
  define vid where "vid = (\<lambda>n. case original_value_id config n of Some v \<Rightarrow> v | None \<Rightarrow> [])"
  define wt where "wt = (\<lambda>n. snd (the (tokenize_part rt (CHR '' '' # apply_weight (wgt n) (seg n)))))"
  have facts: "original_value_id config n = Some (vid n) \<and>
      (case slots config n of None \<Rightarrow> [] | Some sc \<Rightarrow>
         apply_weight (weight sc) (segment_text gen n sc language)) = apply_weight (wgt n) (seg n) \<and>
      seg n \<noteq> [] \<and> CHR '','' \<notin> set (seg n) \<and> strip (seg n) = seg n \<and>
      \<not> startswith (seg n) ''('' \<and> lower (seg n) \<notin> set skip_tokens \<and>
      (wgt n = 1 \<or> py_float rt (format_1f (wgt n)) \<noteq> None) \<and>
      (\<exists>col item_text ms.
         extract_color ?idx (seg n) = Inr (col, item_text) \<and>
         map_of (exact_index ?idx) (lower item_text) = Some ms \<and>
         ms \<noteq> [] \<and> list_all (\<lambda>m. m = (n, vid n)) ms)"
    if "n \<in> set ?E" for n
  proof -
    from ready that have "round_trip_ready rt gen config language n"
      by (simp add: list_all_iff)
    from ready_parses[OF uniq this] obtain sc v col item_text ms where
      sc: "slots config n = Some sc" "value_id sc = Some v"
      and rest: "segment_text gen n sc language \<noteq> []"
        "CHR '','' \<notin> set (segment_text gen n sc language)"
        "strip (segment_text gen n sc language) = segment_text gen n sc language"
        "\<not> startswith (segment_text gen n sc language) ''(''"
        "lower (segment_text gen n sc language) \<notin> set skip_tokens"
        "weight sc = 1 \<or> py_float rt (format_1f (weight sc)) \<noteq> None"
      and hit: "extract_color ?idx (segment_text gen n sc language) = Inr (col, item_text)"
        "map_of (exact_index ?idx) (lower item_text) = Some ms"
        "ms \<noteq> []" "list_all (\<lambda>m. m = (n, v)) ms"
      by blast
    from sc have eqs: "seg n = segment_text gen n sc language" "wgt n = weight sc" "vid n = v"
      "original_value_id config n = Some v"
      by (simp_all add: seg_def wgt_def vid_def original_value_id_def)
    from hit eqs have "\<exists>col item_text ms.
         extract_color ?idx (seg n) = Inr (col, item_text) \<and>
         map_of (exact_index ?idx) (lower item_text) = Some ms \<and>
         ms \<noteq> [] \<and> list_all (\<lambda>m. m = (n, vid n)) ms"
      by auto
    with sc rest eqs show ?thesis by simp
  qed
  have tok: "tokenize_part rt (CHR '' '' # apply_weight (wgt n) (seg n)) = Some (seg n, wt n)"
    if "n \<in> set ?E" for n
  proof -
    from facts[OF that] tokenize_part_segment[of "seg n" "wgt n" rt]
    obtain x where "tokenize_part rt (CHR '' '' # apply_weight (wgt n) (seg n)) = Some (seg n, x)"
      by blast
    then show ?thesis by (simp add: wt_def)
  qed
  have parts: "build_parts gen config language
      = ''1girl'' # map (\<lambda>n. apply_weight (wgt n) (seg n)) ?E"
    unfolding build_parts_eq emitted_slots_def[symmetric]
    using facts by (simp cong: map_cong)
  have no_comma: "\<forall>p \<in> set (''1girl'' # map (\<lambda>n. apply_weight (wgt n) (seg n)) ?E).
      CHR '','' \<notin> set p"
    using facts by (auto simp: apply_weight_no_comma)
  have split: "split_on CHR '','' (build_prompt_localized gen config language)
      = ''1girl'' # map ((#) CHR '' '') (map (\<lambda>n. apply_weight (wgt n) (seg n)) ?E)"
    unfolding build_prompt_localized_def parts
    using split_on_join[of "[]", OF _ no_comma] by simp
  have tokens: "tokenize rt (build_prompt_localized gen config language)
      = (''1girl'', 1) # map (\<lambda>n. (seg n, wt n)) ?E"
    unfolding tokenize_def split
    using concat_map_some[of ?E "tokenize_part rt"
        "\<lambda>n. CHR '' '' # apply_weight (wgt n) (seg n)" "\<lambda>n. (seg n, wt n)", OF tok]
    by (simp add: tokenize_part_subject comp_def)
  have good: "considered (seg n, wt n) \<and>
      (\<exists>col item_text ms.
         extract_color ?idx (seg n) = Inr (col, item_text) \<and>
         map_of (exact_index ?idx) (lower item_text) = Some ms \<and>
         ms \<noteq> [] \<and> list_all (\<lambda>m. m = (n, vid n)) ms)"
    if "n \<in> set ?E" for n
    using facts[OF that] by (simp add: considered_def)
  have d: "distinct ?E"
    by (simp add: emitted_slots_def distinct_slot_order)
  have free0: "st_results ?init n = None" for n by simp
  from parse_loop_round_trip[of ?E seg wt ?idx vid ?init rt False, OF d good free0]
  obtain st' where run: "parse_loop rt ?idx False (map (\<lambda>n. (seg n, wt n)) ?E) ?init = Inr st'"
    and found: "\<forall>n \<in> set ?E. map_option res_value_id (st_results st' n) = Some (vid n)"
    by blast
  from run have "parse_tokens rt ?idx False (tokenize rt (build_prompt_localized gen config language))
      = Inr st'"
    unfolding parse_tokens_def tokens
    by (simp add: parse_token_skip[OF subject_skipped])
  then have "parsed_value_id
      (parse rt ?idx (build_prompt_localized gen config language) False) n
      = Inr (map_option res_value_id (st_results st' n))" for n
    by (simp add: parse_def parsed_value_id_def Let_def)
  with found facts show ?thesis
    by (simp add: list_all_iff)
qed

theorem round_trip_witness:
  "list_all dollar_free (color_words gen_scenario) \<and>
   unique_display_names gen_scenario \<and>
   list_all (round_trip_ready example_runtime gen_scenario config_weighted ''en'')
     (emitted_slots gen_scenario config_weighted) \<and>
   emitted_slots gen_scenario config_weighted = [''eye_color'', ''full_body''] \<and>
   build_prompt_localized gen_scenario config_weighted ''en'' = ''1girl, blue eyes, (red dress:1.3)'' \<and>
   parsed_value_id
     (parse example_runtime (build_indices gen_scenario)
        (build_prompt_localized gen_scenario config_weighted ''en'') False) ''eye_color''
     = Inr (Some ''eyes_blue'') \<and>
   parsed_value_id
     (parse example_runtime (build_indices gen_scenario)
        (build_prompt_localized gen_scenario config_weighted ''en'') False) ''full_body''
     = Inr (Some ''dress_casual'')"
proof -
  have words: "list_all dollar_free (color_words gen_scenario)"
    by code_simp
  have uniq: "unique_display_names gen_scenario"
    by code_simp
  have ready: "list_all (round_trip_ready example_runtime gen_scenario config_weighted ''en'')
      (emitted_slots gen_scenario config_weighted)"
    by code_simp
  have em: "emitted_slots gen_scenario config_weighted = [''eye_color'', ''full_body'']"
    by code_simp
  have pr: "build_prompt_localized gen_scenario config_weighted ''en''
      = ''1girl, blue eyes, (red dress:1.3)''"
    by code_simp
  have orig: "original_value_id config_weighted ''eye_color'' = Some ''eyes_blue''"
    "original_value_id config_weighted ''full_body'' = Some ''dress_casual''"
    by code_simp+
  from round_trip[OF words uniq ready] em orig
  have "parsed_value_id
     (parse example_runtime (build_indices gen_scenario)
        (build_prompt_localized gen_scenario config_weighted ''en'') False) ''eye_color''
     = Inr (Some ''eyes_blue'')"
    and "parsed_value_id
     (parse example_runtime (build_indices gen_scenario)
        (build_prompt_localized gen_scenario config_weighted ''en'') False) ''full_body''
     = Inr (Some ''dress_casual'')"
    by simp_all
  with words uniq ready em pr show ?thesis by (intro conjI)
qed

text \<open>
  The claim as stated fails when an item name begins with a colour word: no two display
  names are equal, the slot is emitted, and the parser strips \<open>white\<close> as a colour and
  matches the other item, \<open>dress\<close>.
\<close>

theorem round_trip_counterexample:
  "emitted_slots gen_white config_white_dress = [''full_body''] \<and>
   original_value_id config_white_dress ''full_body'' = Some ''white_dress'' \<and>
   unique_display_names gen_white \<and>
   distinct (map fst (index_entries exact_keys gen_white)) \<and>
   build_prompt_localized gen_white config_white_dress ''en'' = ''1girl, white dress'' \<and>
   parsed_value_id
     (parse example_runtime (build_indices gen_white)
        (build_prompt_localized gen_white config_white_dress ''en'') False) ''full_body''
     = Inr (Some ''dress'')"
  by code_simp

text \<open>
  The other conditions are needed as well. A value id that is not the id of an item (the
  lock text that the node writes to \<open>value_id\<close>) comes back as the id of the item of that
  name; a display name that is a skip token never reaches the matching; a display name
  with a comma is cut in two; a colour that the parser does not know stays in front of
  the name; of two options of one slot with the same name the parser always returns the
  first.
\<close>

lemma round_trip_needs_item_id:
  "emitted_slots gen_scenario config_lock_text = [''full_body''] \<and>
   original_value_id config_lock_text ''full_body'' = Some ''dress'' \<and>
   unique_display_names gen_scenario \<and>
   build_prompt_localized gen_scenario config_lock_text ''en'' = ''1girl, dress'' \<and>
   parsed_value_id
     (parse example_runtime (build_indices gen_scenario)
        (build_prompt_localized gen_scenario config_lock_text ''en'') False) ''full_body''
     = Inr (Some ''dress_casual'')"
  by code_simp

lemma round_trip_needs_no_skip_token:
  "emitted_slots gen_solo config_solo = [''pose''] \<and>
   original_value_id config_solo ''pose'' = Some ''pose_solo'' \<and>
   unique_display_names gen_solo \<and>
   build_prompt_localized gen_solo config_solo ''en'' = ''1girl, solo'' \<and>
   parsed_value_id
     (parse example_runtime (build_indices gen_solo)
        (build_prompt_localized gen_solo config_solo ''en'') False) ''pose''
     = Inr None"
  by code_simp

lemma round_trip_needs_no_comma:
  "emitted_slots gen_comma config_comma = [''neck''] \<and>
   original_value_id config_comma ''neck'' = Some ''knot_bow'' \<and>
   unique_display_names gen_comma \<and>
   build_prompt_localized gen_comma config_comma ''en'' = ''1girl, knot,bow'' \<and>
   parsed_value_id
     (parse example_runtime (build_indices gen_comma)
        (build_prompt_localized gen_comma config_comma ''en'') False) ''neck''
     = Inr None"
  by code_simp

lemma round_trip_needs_known_color:
  "emitted_slots gen_scenario config_crimson = [''full_body''] \<and>
   original_value_id config_crimson ''full_body'' = Some ''dress_casual'' \<and>
   unique_display_names gen_scenario \<and>
   build_prompt_localized gen_scenario config_crimson ''en'' = ''1girl, crimson dress'' \<and>
   parsed_value_id
     (parse example_runtime (build_indices gen_scenario)
        (build_prompt_localized gen_scenario config_crimson ''en'') False) ''full_body''
     = Inr None"
  by code_simp

lemma round_trip_needs_one_id_per_name:
  "emitted_slots gen_twins config_twins = [''full_body''] \<and>
   original_value_id config_twins ''full_body'' = Some ''dress_b'' \<and>
   \<not> unique_display_names gen_twins \<and>
   build_prompt_localized gen_twins config_twins ''en'' = ''1girl, dress'' \<and>
   parsed_value_id
     (parse example_runtime (build_indices gen_twins)
        (build_prompt_localized gen_twins config_twins ''en'') False) ''full_body''
     = Inr (Some ''dress_a'')"
  by code_simp

end
